theory Spec2Isabelle
  imports Main "HOL-Library.Sublist"
begin

section \<open>Go values used by \<open>sv/git.go\<close>\<close>

text \<open>
  A Go \<open>string\<close> and a \<open>[]byte\<close> are byte sequences: both are \<^typ>\<open>string\<close> here, and
  the conversions \<open>string(out)\<close> and \<open>[]byte(endLine)\<close> are the identity. A Go \<open>error\<close> is
  a value of the datatype below; \<open>nil\<close> is \<^term>\<open>None\<close> of \<open>error option\<close>. The sentinel
  errors of \<open>bufio\<close>, \<open>io\<close> and \<open>strconv\<close> are constructors of their own, because the
  library compares them by identity; \<open>ExternalError\<close> is an error of a package outside
  this file (\<open>os/exec\<close>, the message processor, \<open>time\<close>), known by its message only.
\<close>

datatype error =
    EOF
  | ErrTooLong
  | ErrNegativeAdvance
  | ErrAdvanceTooFar
  | ErrNoProgress
  | ErrFinalToken
  | ErrSyntax
  | ErrRange
  | ErrorsNew string
  | ExternalError string

text \<open>The method \<open>Error()\<close>: the message of an error, as \<open>%v\<close> prints it.\<close>

fun Error :: "error \<Rightarrow> string" where
  "Error EOF = ''EOF''"
| "Error ErrTooLong = ''bufio.Scanner: token too long''"
| "Error ErrNegativeAdvance = ''bufio.Scanner: SplitFunc returns negative advance count''"
| "Error ErrAdvanceTooFar = ''bufio.Scanner: SplitFunc returns advance count beyond input''"
| "Error ErrNoProgress = ''multiple Read calls return no data or error''"
| "Error ErrFinalToken = ''final token''"
| "Error ErrSyntax = ''invalid syntax''"
| "Error ErrRange = ''value out of range''"
| "Error (ErrorsNew msg) = msg"
| "Error (ExternalError msg) = msg"

text \<open>
  A run-time panic is not an error value: a function that panics returns nothing. The
  outcome of a call of a function that returns \<open>(T, error)\<close> is therefore one of three.
\<close>

datatype panic =
    IndexOutOfRange nat nat  \<comment> \<open>index out of range [i] with length n\<close>
  | TooManyEmptyTokens       \<comment> \<open>bufio.Scan: too many empty tokens without progressing\<close>

datatype 'a result = Ok 'a | Err error | Panic panic

text \<open>An index expression \<open>xs[i]\<close>: the element, or nothing where Go panics.\<close>

definition at :: "'a list \<Rightarrow> nat \<Rightarrow> 'a option" where
  "at xs i = (if i < length xs then Some (xs ! i) else None)"

subsection \<open>\<open>bytes.Index\<close>, \<open>strings.Index\<close>\<close>

text \<open>
  The index of the first instance of \<open>sep\<close> in \<open>s\<close>; Go's \<open>-1\<close> is \<^term>\<open>None\<close>, so the
  source's test \<open>i >= 0\<close> is the case \<open>Some i\<close>.
\<close>

fun bytes_Index :: "string \<Rightarrow> string \<Rightarrow> nat option" where
  "bytes_Index [] sep = (if sep = [] then Some 0 else None)"
| "bytes_Index (c # cs) sep =
     (if prefix sep (c # cs) then Some 0 else map_option Suc (bytes_Index cs sep))"

lemma bytes_Index_le: "bytes_Index s sep = Some m \<Longrightarrow> m + length sep \<le> length s"
proof (induction s arbitrary: m)
  case Nil
  then show ?case by (simp split: if_splits)
next
  case (Cons c cs)
  show ?case
  proof (cases "prefix sep (c # cs)")
    case True
    with Cons.prems show ?thesis by (auto dest: prefix_length_le)
  next
    case False
    with Cons.prems obtain m' where "bytes_Index cs sep = Some m'" "m = Suc m'" by auto
    with Cons.IH show ?thesis by auto
  qed
qed

subsection \<open>\<open>strings.Split\<close>, \<open>strings.Trim\<close>\<close>

text \<open>
  \<open>strings.Split(s, sep)\<close> for a non-empty \<open>sep\<close>: the substrings between the instances
  of \<open>sep\<close>, found from the left, one after the other. (With an empty \<open>sep\<close> Go splits
  after each UTF-8 sequence; this file only splits at \<open>"###"\<close>, \<open>"#"\<close> and a newline, and
  the model gives the bytes one by one there.)
\<close>

function strings_Split :: "string \<Rightarrow> string \<Rightarrow> string list" where
  "strings_Split s sep =
     (if sep = [] then map (\<lambda>c. [c]) s
      else case bytes_Index s sep of
             None \<Rightarrow> [s]
           | Some m \<Rightarrow> take m s # strings_Split (drop (m + length sep) s) sep)"
  by pat_completeness auto
termination
proof (relation "measure (\<lambda>(s, sep). length s)")
  fix s sep :: string and m :: nat
  assume "sep \<noteq> []" and "bytes_Index s sep = Some m"
  then have "m + length sep \<le> length s" and "0 < m + length sep"
    by (simp_all add: bytes_Index_le)
  then have "length s - (m + length sep) < length s"
    by arith
  then show "((drop (m + length sep) s, sep), (s, sep)) \<in> measure (\<lambda>(s, sep). length s)"
    by simp
qed simp

text \<open>
  \<open>strings.Count(s, substr)\<close>: the number of non-overlapping instances of \<open>substr\<close>,
  counted from the left; \<open>Split\<close> returns one string more. (For an empty \<open>substr\<close> Go
  counts the UTF-8 sequences of \<open>s\<close> and adds one; the model counts the bytes.)
\<close>

function strings_Count :: "string \<Rightarrow> string \<Rightarrow> nat" where
  "strings_Count s substr =
     (if substr = [] then length s + 1
      else case bytes_Index s substr of
             None \<Rightarrow> 0
           | Some i \<Rightarrow> 1 + strings_Count (drop (i + length substr) s) substr)"
  by pat_completeness auto
termination
proof (relation "measure (\<lambda>(s, substr). length s)")
  fix s substr :: string and i :: nat
  assume "substr \<noteq> []" and "bytes_Index s substr = Some i"
  then have "i + length substr \<le> length s" and "0 < i + length substr"
    by (simp_all add: bytes_Index_le)
  then have "length s - (i + length substr) < length s"
    by arith
  then show "((drop (i + length substr) s, substr), (s, substr)) \<in>
      measure (\<lambda>(s, substr). length s)"
    by simp
qed simp

text \<open>
  \<open>strings.Trim(s, cutset)\<close> for a cutset of ASCII bytes (the source's cutset is one
  double quote): all leading and trailing bytes of the cutset are removed.
\<close>

definition strings_Trim :: "string \<Rightarrow> string \<Rightarrow> string" where
  "strings_Trim s cutset =
     dropWhile (\<lambda>c. c \<in> set cutset) (rev (dropWhile (\<lambda>c. c \<in> set cutset) (rev s)))"

subsection \<open>\<open>strings.TrimSpace\<close>\<close>

text \<open>
  \<open>unicode.IsSpace\<close> holds of six ASCII characters, of U+0085 and U+00A0, and of the other
  code points with the property White_Space (U+1680, U+2000 to U+200A, U+2028, U+2029,
  U+202F, U+205F, U+3000). The table lists their UTF-8 encodings: \<open>TrimSpace\<close> decodes the
  string from either end, and a byte that starts no valid encoding of the table stops it.
\<close>

definition whiteSpace :: "string list" where
  "whiteSpace =
     [[CHR 0x09], [CHR 0x0A], [CHR 0x0B], [CHR 0x0C], [CHR 0x0D], [CHR 0x20],
      [CHR 0xC2, CHR 0x85], [CHR 0xC2, CHR 0xA0],
      [CHR 0xE1, CHR 0x9A, CHR 0x80],
      [CHR 0xE2, CHR 0x80, CHR 0x80], [CHR 0xE2, CHR 0x80, CHR 0x81],
      [CHR 0xE2, CHR 0x80, CHR 0x82], [CHR 0xE2, CHR 0x80, CHR 0x83],
      [CHR 0xE2, CHR 0x80, CHR 0x84], [CHR 0xE2, CHR 0x80, CHR 0x85],
      [CHR 0xE2, CHR 0x80, CHR 0x86], [CHR 0xE2, CHR 0x80, CHR 0x87],
      [CHR 0xE2, CHR 0x80, CHR 0x88], [CHR 0xE2, CHR 0x80, CHR 0x89],
      [CHR 0xE2, CHR 0x80, CHR 0x8A],
      [CHR 0xE2, CHR 0x80, CHR 0xA8], [CHR 0xE2, CHR 0x80, CHR 0xA9],
      [CHR 0xE2, CHR 0x80, CHR 0xAF],
      [CHR 0xE2, CHR 0x81, CHR 0x9F],
      [CHR 0xE3, CHR 0x80, CHR 0x80]]"

text \<open>Removes, from the left, every leading sequence of the table.\<close>

function trimLeftSeqs :: "string list \<Rightarrow> string \<Rightarrow> string" where
  "trimLeftSeqs ws s =
     (case find (\<lambda>w. w \<noteq> [] \<and> prefix w s) ws of
        None \<Rightarrow> s
      | Some w \<Rightarrow> trimLeftSeqs ws (drop (length w) s))"
  by pat_completeness auto
termination
proof (relation "measure (\<lambda>(ws, s). length s)")
  fix ws :: "string list" and s w :: string
  assume "find (\<lambda>w. w \<noteq> [] \<and> prefix w s) ws = Some w"
  then have "w \<noteq> []" and "prefix w s"
    by (auto simp: find_Some_iff)
  then have "0 < length w" and "length w \<le> length s"
    by (auto dest: prefix_length_le)
  then have "length s - length w < length s"
    by arith
  then show "((ws, drop (length w) s), (ws, s)) \<in> measure (\<lambda>(ws, s). length s)"
    by simp
qed simp

text \<open>\<open>TrimFunc(s, unicode.IsSpace)\<close>: the left end first, then the right end.\<close>

definition strings_TrimSpace :: "string \<Rightarrow> string" where
  "strings_TrimSpace s =
     rev (trimLeftSeqs (map rev whiteSpace) (rev (trimLeftSeqs whiteSpace s)))"

subsection \<open>\<open>strconv.Atoi\<close>\<close>

text \<open>
  \<open>int\<close> has 64 bits (the \<open>amd64\<close> and \<open>arm64\<close> targets). \<open>Atoi\<close> has a fast path for
  strings of fewer than 19 bytes and otherwise calls \<open>ParseInt(s, 10, 0)\<close>, which reads
  the digits with \<open>ParseUint\<close> in \<open>uint64\<close> arithmetic (written out modulo \<open>2 ^ 64\<close>).
  \<open>ParseUint\<close> reports a range error at the digit where the value overflows, before it
  looks at the bytes after it; on a range error \<open>ParseInt\<close> returns the nearest bound
  with the error. In base 10 every byte that is not a decimal digit is a syntax error.
\<close>

definition isDigit :: "char \<Rightarrow> bool" where
  "isDigit c \<longleftrightarrow> 48 \<le> (of_char c :: nat) \<and> (of_char c :: nat) \<le> 57"

definition digitVal :: "char \<Rightarrow> nat" where
  "digitVal c = of_char c - 48"

definition maxUint64 :: nat where
  "maxUint64 = 18446744073709551615"

fun ParseUint_loop :: "string \<Rightarrow> nat \<Rightarrow> nat \<times> error option" where
  "ParseUint_loop [] n = (n, None)"
| "ParseUint_loop (c # cs) n =
     (if \<not> isDigit c then (0, Some ErrSyntax)
      else if n \<ge> maxUint64 div 10 + 1 then (maxUint64, Some ErrRange)
      else
        let n' = (n * 10) mod 2 ^ 64;
            n1 = (n' + digitVal c) mod 2 ^ 64
        in if n1 < n' \<or> n1 > maxUint64 then (maxUint64, Some ErrRange)
           else ParseUint_loop cs n1)"

definition ParseUint :: "string \<Rightarrow> nat \<times> error option" where
  "ParseUint s = (if s = [] then (0, Some ErrSyntax) else ParseUint_loop s 0)"

definition ParseInt :: "string \<Rightarrow> int \<times> error option" where
  "ParseInt s =
     (if s = [] then (0, Some ErrSyntax)
      else
        let neg = (hd s = CHR ''-'');
            s1 = (if hd s = CHR ''+'' \<or> hd s = CHR ''-'' then tl s else s)
        in case ParseUint s1 of
             (un, err) \<Rightarrow>
               if err \<noteq> None \<and> err \<noteq> Some ErrRange then (0, err)
               else if \<not> neg \<and> un \<ge> 2 ^ 63 then (2 ^ 63 - 1, Some ErrRange)
               else if neg \<and> un > 2 ^ 63 then (- (2 ^ 63), Some ErrRange)
               else (if neg then - int un else int un, None))"

fun Atoi_loop :: "string \<Rightarrow> int \<Rightarrow> int option" where
  "Atoi_loop [] n = Some n"
| "Atoi_loop (ch # cs) n =
     (if \<not> isDigit ch then None else Atoi_loop cs (n * 10 + int (digitVal ch)))"

definition strconv_Atoi :: "string \<Rightarrow> int \<times> error option" where
  "strconv_Atoi s =
     (if 0 < length s \<and> length s < 19 then
        let signed = (hd s = CHR ''-'' \<or> hd s = CHR ''+'');
            s1 = (if signed then tl s else s)
        in if signed \<and> length s1 < 1 then (0, Some ErrSyntax)
           else case Atoi_loop s1 0 of
                  None \<Rightarrow> (0, Some ErrSyntax)
                | Some n \<Rightarrow> (if hd s = CHR ''-'' then - n else n, None)
      else ParseInt s)"

subsection \<open>\<open>bufio.Scanner\<close> over a \<open>strings.Reader\<close>\<close>

text \<open>
  A split function gets the unprocessed bytes of the buffer and the flag \<open>atEOF\<close>, and
  returns the number of bytes to advance, the token (\<open>nil\<close> is \<^term>\<open>None\<close>; an empty
  slice that is not \<open>nil\<close> is \<^term>\<open>Some []\<close>) and an error.
\<close>

type_synonym SplitFunc = "string \<Rightarrow> bool \<Rightarrow> int \<times> string option \<times> error option"

text \<open>
  The state of a scanner: \<open>sc_r\<close> is what the reader has not delivered yet, \<open>sc_buflen\<close>
  is \<open>len(s.buf)\<close>, \<open>sc_start\<close> is \<open>s.start\<close>, \<open>sc_data\<close> is \<open>s.buf[s.start:s.end]\<close> (so
  \<open>s.end\<close> is \<open>sc_start + length sc_data\<close>; the buffer's other bytes are never read again),
  \<open>sc_err\<close>, \<open>sc_empties\<close> and \<open>sc_done\<close> are the fields \<open>err\<close>, \<open>empties\<close> and \<open>done\<close>.
\<close>

record Scanner =
  sc_r :: string
  sc_buflen :: nat
  sc_start :: nat
  sc_data :: string
  sc_err :: "error option"
  sc_empties :: nat
  sc_done :: bool

definition MaxScanTokenSize :: nat where
  "MaxScanTokenSize = 64 * 1024"

definition startBufSize :: nat where
  "startBufSize = 4096"

definition maxConsecutiveEmptyReads :: nat where
  "maxConsecutiveEmptyReads = 100"

definition maxInt :: nat where
  "maxInt = 2 ^ 63 - 1"

definition NewScanner :: "string \<Rightarrow> Scanner" where
  "NewScanner input =
     \<lparr>sc_r = input, sc_buflen = 0, sc_start = 0, sc_data = [], sc_err = None,
      sc_empties = 0, sc_done = False\<rparr>"

definition setErr :: "error \<Rightarrow> Scanner \<Rightarrow> Scanner" where
  "setErr e s = (if sc_err s = None \<or> sc_err s = Some EOF then s\<lparr>sc_err := Some e\<rparr> else s)"

text \<open>
  The read loop at the end of \<open>Scan\<close>. \<open>strings.Reader.Read\<close> returns \<open>0, io.EOF\<close> when
  nothing is left, and otherwise copies as many bytes as the free part of the buffer
  takes; a call that copies nothing (no room) is repeated, and after
  \<open>maxConsecutiveEmptyReads\<close> of them the error is \<open>io.ErrNoProgress\<close>.
\<close>

definition scan_fill :: "Scanner \<Rightarrow> Scanner" where
  "scan_fill s =
     (if sc_r s = [] then setErr EOF s
      else
        let n = min (sc_buflen s - (sc_start s + length (sc_data s))) (length (sc_r s))
        in if n > 0
           then s\<lparr>sc_data := sc_data s @ take n (sc_r s), sc_r := drop n (sc_r s),
                  sc_empties := 0\<rparr>
           else setErr ErrNoProgress s)"

text \<open>What one pass through the loop of \<open>Scan\<close> ends in.\<close>

datatype scan_step =
    Token string Scanner  \<comment> \<open>\<open>Scan\<close> returns \<open>true\<close>; \<open>Text()\<close> is the token\<close>
  | NoToken Scanner       \<comment> \<open>\<open>Scan\<close> returns \<open>false\<close>\<close>
  | Again Scanner         \<comment> \<open>the loop goes round again\<close>
  | EmptiesPanic          \<comment> \<open>\<open>Scan\<close> panics\<close>

text \<open>
  The second half of the loop: no token can be made of the buffer. At the end of input
  \<open>Scan\<close> gives up; otherwise it moves the data to the front of the buffer if there is
  much free space before it, doubles a full buffer unless it has \<open>MaxScanTokenSize\<close>
  bytes already (then the error is \<open>ErrTooLong\<close>), and reads.
\<close>

definition scan_more :: "Scanner \<Rightarrow> scan_step" where
  "scan_more s =
     (if sc_err s \<noteq> None then NoToken (s\<lparr>sc_start := 0, sc_data := []\<rparr>)
      else
        let s1 = (if sc_start s > 0 \<and>
                     (sc_start s + length (sc_data s) = sc_buflen s \<or>
                      sc_start s > sc_buflen s div 2)
                  then s\<lparr>sc_start := 0\<rparr> else s)
        in if sc_start s1 + length (sc_data s1) = sc_buflen s1 then
             if sc_buflen s1 \<ge> MaxScanTokenSize \<or> sc_buflen s1 > maxInt div 2
             then NoToken (setErr ErrTooLong s1)
             else
               let newSize = (if sc_buflen s1 * 2 = 0 then startBufSize else sc_buflen s1 * 2)
               in Again (scan_fill (s1\<lparr>sc_buflen := min newSize MaxScanTokenSize,
                                        sc_start := 0\<rparr>))
           else Again (scan_fill s1))"

text \<open>
  One pass through the loop of \<open>Scan\<close>: with data in the buffer, or at the end of input,
  the split function is asked for a token.
\<close>

definition scan_step :: "SplitFunc \<Rightarrow> Scanner \<Rightarrow> scan_step" where
  "scan_step split s =
     (if sc_done s then NoToken s
      else if sc_data s \<noteq> [] \<or> sc_err s \<noteq> None then
        case split (sc_data s) (sc_err s \<noteq> None) of
          (advance, token, err) \<Rightarrow>
            (case err of
               Some e \<Rightarrow>
                 if e = ErrFinalToken then
                   (case token of
                      Some t \<Rightarrow> Token t (s\<lparr>sc_done := True\<rparr>)
                    | None \<Rightarrow> NoToken (s\<lparr>sc_done := True\<rparr>))
                 else NoToken (setErr e s)
             | None \<Rightarrow>
                 if advance < 0 then NoToken (setErr ErrNegativeAdvance s)
                 else if advance > int (length (sc_data s)) then NoToken (setErr ErrAdvanceTooFar s)
                 else
                   let s1 = s\<lparr>sc_start := sc_start s + nat advance,
                              sc_data := drop (nat advance) (sc_data s)\<rparr>
                   in case token of
                        Some t \<Rightarrow>
                          if sc_err s1 = None \<or> advance > 0 then Token t (s1\<lparr>sc_empties := 0\<rparr>)
                          else if sc_empties s1 + 1 > maxConsecutiveEmptyReads then EmptiesPanic
                          else Token t (s1\<lparr>sc_empties := sc_empties s1 + 1\<rparr>)
                      | None \<Rightarrow> scan_more s1)
      else scan_more s)"

text \<open>
  The loop \<open>for scanner.Scan() { ... scanner.Text() ... }\<close> yields the tokens one by one
  until \<open>Scan\<close> returns \<open>false\<close> or panics. A split function that keeps returning empty
  tokens without advancing before the end of input makes it run forever: the value is
  \<^term>\<open>None\<close> then. The bodies of the two loops of this file only read the token, so
  each loop is its body run over the tokens in turn.
\<close>

datatype scan_end = ScanStopped | ScanPanicked

partial_function (option) scan_tokens ::
  "SplitFunc \<Rightarrow> Scanner \<Rightarrow> string list \<Rightarrow> (string list \<times> scan_end) option"
where
  "scan_tokens split s acc =
     (case scan_step split s of
        Token t s' \<Rightarrow> scan_tokens split s' (acc @ [t])
      | Again s' \<Rightarrow> scan_tokens split s' acc
      | NoToken s' \<Rightarrow> Some (acc, ScanStopped)
      | EmptiesPanic \<Rightarrow> Some (acc, ScanPanicked))"

declare scan_tokens.simps [code]

definition Scanner_tokens :: "SplitFunc \<Rightarrow> string \<Rightarrow> (string list \<times> scan_end) option" where
  "Scanner_tokens split input = scan_tokens split (NewScanner input) []"

text \<open>\<open>bufio.ScanLines\<close>, the split function of a new scanner.\<close>

definition dropCR :: "string \<Rightarrow> string" where
  "dropCR data = (if data \<noteq> [] \<and> last data = CHR 0x0D then butlast data else data)"

definition ScanLines :: SplitFunc where
  "ScanLines data atEOF =
     (if atEOF \<and> length data = 0 then (0, None, None)
      else case bytes_Index data [CHR 0x0A] of
             Some i \<Rightarrow> (int i + 1, Some (dropCR (take i data)), None)
           | None \<Rightarrow>
               if atEOF then (int (length data), Some (dropCR data), None)
               else (0, None, None))"

subsection \<open>\<open>time\<close>: dates in the layout \<open>2006-01-02\<close>\<close>

text \<open>
  \<open>addDay\<close> parses and formats with the layout \<open>"2006-01-02"\<close> only, so the \<open>time.Time\<close>
  values it sees are midnights in UTC: \<open>TimeDate y m d\<close> is
  \<open>time.Date(y, m, d, 0, 0, 0, 0, time.UTC)\<close>. A failed \<open>time.Parse\<close> is \<^term>\<open>None\<close>.
  \<open>Parse\<close> takes four digits for the year, two for the month (1 to 12), two for the day,
  a \<open>'-'\<close> between them and nothing after them, and checks the day against the month.
\<close>

datatype Time = TimeDate nat nat nat

definition isLeap :: "nat \<Rightarrow> bool" where
  "isLeap year \<longleftrightarrow> year mod 4 = 0 \<and> (year mod 100 \<noteq> 0 \<or> year mod 400 = 0)"

definition daysIn :: "nat \<Rightarrow> nat \<Rightarrow> nat" where
  "daysIn m year =
     (if m = 2 \<and> isLeap year then 29
      else [31, 28, 31, 30, 31, 30, 31, 31, 30, 31, 30, 31] ! (m - 1))"

fun decimal :: "string \<Rightarrow> nat \<Rightarrow> nat" where
  "decimal [] n = n"
| "decimal (c # cs) n = decimal cs (n * 10 + digitVal c)"

fun getnum2 :: "string \<Rightarrow> (nat \<times> string) option" where
  "getnum2 (a # b # rest) =
     (if isDigit a \<and> isDigit b then Some (digitVal a * 10 + digitVal b, rest) else None)"
| "getnum2 _ = None"

definition time_Parse_date :: "string \<Rightarrow> Time option" where
  "time_Parse_date value =
     (if length value < 4 \<or> \<not> isDigit (value ! 0) then None
      else if \<not> list_all isDigit (take 4 value) then None
      else
        let year = decimal (take 4 value) 0 in
        case drop 4 value of
          c1 # v1 \<Rightarrow>
            if c1 \<noteq> CHR ''-'' then None
            else
              (case getnum2 v1 of
                 None \<Rightarrow> None
               | Some (month, v2) \<Rightarrow>
                   if month \<le> 0 \<or> 12 < month then None
                   else
                     (case v2 of
                        c2 # v3 \<Rightarrow>
                          if c2 \<noteq> CHR ''-'' then None
                          else
                            (case getnum2 v3 of
                               None \<Rightarrow> None
                             | Some (day, v4) \<Rightarrow>
                                 if v4 \<noteq> [] then None
                                 else if day < 1 \<or> day > daysIn month year then None
                                 else Some (TimeDate year month day))
                      | [] \<Rightarrow> None))
        | [] \<Rightarrow> None)"

text \<open>
  \<open>t.AddDate(0, 0, 1)\<close> is \<open>Date(y, m, d + 1, ...)\<close>, which carries a day past the end
  of the month into the next month and year. (For a date \<open>Parse\<close> returned, \<open>d\<close> is at
  most \<open>daysIn m y\<close>, so the carry is one day.)
\<close>

fun AddDate_day :: "Time \<Rightarrow> Time" where
  "AddDate_day (TimeDate y m d) =
     (if d + 1 \<le> daysIn m y then TimeDate y m (d + 1)
      else if m < 12 then TimeDate y (m + 1) 1
      else TimeDate (y + 1) 1 1)"

text \<open>\<open>appendInt\<close> of package \<open>time\<close>: decimal, padded with zeros to the width.\<close>

definition digitChar :: "nat \<Rightarrow> char" where
  "digitChar k = ''0123456789'' ! k"

fun utoa :: "nat \<Rightarrow> string" where
  "utoa n = (if n < 10 then [digitChar n] else utoa (n div 10) @ [digitChar (n mod 10)])"

definition appendInt :: "nat \<Rightarrow> nat \<Rightarrow> string" where
  "appendInt x width = replicate (width - length (utoa x)) (CHR ''0'') @ utoa x"

fun time_Format_date :: "Time \<Rightarrow> string" where
  "time_Format_date (TimeDate y m d) =
     appendInt y 4 @ ''-'' @ appendInt m 2 @ ''-'' @ appendInt d 2"

text \<open>
  The tag listing is parsed with the layout \<open>"2006-01-02 15:04:05 -0700"\<close>. What that
  layout accepts is left open: a parser \<open>p\<close> says which strings parse and to what time,
  and \<open>time.Parse\<close> returns the zero \<open>Time{}\<close> (here \<open>z\<close>) together with every error.
\<close>

definition time_Parse :: "(string \<Rightarrow> 't option) \<Rightarrow> 't \<Rightarrow> string \<Rightarrow> 't \<times> error option" where
  "time_Parse p z value =
     (case p value of
        Some t \<Rightarrow> (t, None)
      | None \<Rightarrow> (z, Some (ExternalError ''parsing time'')))"

section \<open>The source: \<open>sv/git.go\<close>\<close>

definition logSeparator :: string where
  "logSeparator = ''###''"

definition endLine :: string where
  "endLine = ''~~~''"

text \<open>
  \<open>CommitMessage\<close> is declared in another file of the package: it is the type
  parameter \<open>'m\<close>. The field \<open>Date\<close> of \<open>GitTag\<close> is \<open>TagDate\<close> here (\<open>GitCommitLog\<close> has
  a field \<open>Date\<close> too), and its type \<open>time.Time\<close> is the parameter \<open>'t\<close>.
\<close>

record 'm GitCommitLog =
  Date :: string
  Timestamp :: int
  AuthorName :: string
  Hash :: string
  Message :: 'm

record 't GitTag =
  Name :: string
  TagDate :: 't

type_synonym LogRangeType = string

definition TagRange :: LogRangeType where
  "TagRange = ''tag''"

definition DateRange :: LogRangeType where
  "DateRange = ''date''"

definition HashRange :: LogRangeType where
  "HashRange = ''hash''"

text \<open>The fields \<open>start\<close> and \<open>end\<close> of \<open>LogRange\<close> are \<open>range_start\<close> and \<open>range_end\<close>.\<close>

record LogRange =
  rangeType :: LogRangeType
  range_start :: string
  range_end :: string

definition NewLogRange :: "LogRangeType \<Rightarrow> string \<Rightarrow> string \<Rightarrow> LogRange" where
  "NewLogRange t start end' = \<lparr>rangeType = t, range_start = start, range_end = end'\<rparr>"

text \<open>
  The collaborators: \<open>MessageProcessor.Parse(subject, body)\<close> returns a message or an
  error, and an external command, given by its argument list, returns what
  \<open>exec.Command(...).CombinedOutput()\<close> returns: the output and an error or \<open>nil\<close>.
\<close>

type_synonym 'm MessageProcessor = "string \<Rightarrow> string \<Rightarrow> error + 'm"

type_synonym Command = "string list \<Rightarrow> string \<times> error option"

subsection \<open>\<open>splitAt\<close>, \<open>addDay\<close>, \<open>str\<close>, \<open>combinedOutputErr\<close>\<close>

definition splitAt :: "string \<Rightarrow> SplitFunc" where
  "splitAt b data atEOF =
     (let dataLen = length data in
      if atEOF \<and> dataLen = 0 then (0, None, None)
      else case bytes_Index data b of
             Some i \<Rightarrow> (int (i + length b), Some (take i data), None)
           | None \<Rightarrow>
               if atEOF then (int dataLen, Some data, None)
               else (0, None, None))"

definition addDay :: "string \<Rightarrow> string" where
  "addDay value =
     (if value = [] then value
      else case time_Parse_date value of
             None \<Rightarrow> value
           | Some t \<Rightarrow> time_Format_date (AddDate_day t))"

definition str :: "string \<Rightarrow> string \<Rightarrow> string" where
  "str value defaultValue = (if value \<noteq> [] then value else defaultValue)"

text \<open>\<open>fmt.Errorf("%v - %s", err, msg[0])\<close> is a new error with that message.\<close>

definition combinedOutputErr :: "error \<Rightarrow> string \<Rightarrow> error" where
  "combinedOutputErr err out =
     (let msg = strings_Split out [CHR 0x0A]
      in ErrorsNew (Error err @ '' - '' @ hd msg))"

subsection \<open>\<open>parseCommitLog\<close>, \<open>parseLogOutput\<close>, \<open>parseTagsOutput\<close>\<close>

text \<open>
  Every index expression of the source is a checked access here, in the order Go
  evaluates them: \<open>content[1]\<close>, then the arguments \<open>content[4]\<close> and \<open>content[5]\<close> of
  \<open>Parse\<close>, and after the call \<open>content[0]\<close>, \<open>content[2]\<close> and \<open>content[3]\<close>.
\<close>

definition parseCommitLog :: "'m MessageProcessor \<Rightarrow> string \<Rightarrow> 'm GitCommitLog result" where
  "parseCommitLog messageProcessor commit =
     (let content = strings_Split (strings_Trim commit [CHR 0x22]) logSeparator in
      case at content 1 of
        None \<Rightarrow> Panic (IndexOutOfRange 1 (length content))
      | Some c1 \<Rightarrow>
          (case strconv_Atoi c1 of
             (timestamp, _) \<Rightarrow>
               (case at content 4 of
                  None \<Rightarrow> Panic (IndexOutOfRange 4 (length content))
                | Some c4 \<Rightarrow>
                    (case at content 5 of
                       None \<Rightarrow> Panic (IndexOutOfRange 5 (length content))
                     | Some c5 \<Rightarrow>
                         (case messageProcessor c4 c5 of
                            Inl err \<Rightarrow> Err err
                          | Inr message \<Rightarrow>
                              (case at content 0 of
                                 None \<Rightarrow> Panic (IndexOutOfRange 0 (length content))
                               | Some c0 \<Rightarrow>
                                   (case at content 2 of
                                      None \<Rightarrow> Panic (IndexOutOfRange 2 (length content))
                                    | Some c2 \<Rightarrow>
                                        (case at content 3 of
                                           None \<Rightarrow> Panic (IndexOutOfRange 3 (length content))
                                         | Some c3 \<Rightarrow>
                                             Ok \<lparr>Date = c0, Timestamp = timestamp,
                                                 AuthorName = c2, Hash = c3,
                                                 Message = message\<rparr>))))))))"

text \<open>The body of the loop of \<open>parseLogOutput\<close>, over the tokens of the scanner.\<close>

fun parseLogLoop ::
  "'m MessageProcessor \<Rightarrow> string list \<Rightarrow> scan_end \<Rightarrow> 'm GitCommitLog list \<Rightarrow>
   'm GitCommitLog list result"
where
  "parseLogLoop messageProcessor [] fin logs =
     (case fin of ScanStopped \<Rightarrow> Ok logs | ScanPanicked \<Rightarrow> Panic TooManyEmptyTokens)"
| "parseLogLoop messageProcessor (token # tokens) fin logs =
     (let text = strings_TrimSpace (strings_Trim token [CHR 0x22]) in
      if text \<noteq> [] then
        case parseCommitLog messageProcessor text of
          Ok log \<Rightarrow> parseLogLoop messageProcessor tokens fin (logs @ [log])
        | Err err \<Rightarrow> Err err
        | Panic p \<Rightarrow> Panic p
      else parseLogLoop messageProcessor tokens fin logs)"

definition parseLogOutput ::
  "'m MessageProcessor \<Rightarrow> string \<Rightarrow> 'm GitCommitLog list result option"
where
  "parseLogOutput messageProcessor log =
     (case Scanner_tokens (splitAt endLine) log of
        None \<Rightarrow> None
      | Some (tokens, fin) \<Rightarrow> Some (parseLogLoop messageProcessor tokens fin []))"

text \<open>The body of the loop of \<open>parseTagsOutput\<close>, over the lines of the scanner.\<close>

fun parseTagsLoop ::
  "(string \<Rightarrow> 't option) \<Rightarrow> 't \<Rightarrow> string list \<Rightarrow> scan_end \<Rightarrow> 't GitTag list \<Rightarrow>
   't GitTag list result"
where
  "parseTagsLoop p z [] fin result =
     (case fin of ScanStopped \<Rightarrow> Ok result | ScanPanicked \<Rightarrow> Panic TooManyEmptyTokens)"
| "parseTagsLoop p z (token # tokens) fin result =
     (let line = strings_TrimSpace token in
      if line \<noteq> [] then
        let values = strings_Split line ''#'' in
        case at values 0 of
          None \<Rightarrow> Panic (IndexOutOfRange 0 (length values))
        | Some v0 \<Rightarrow>
            (case time_Parse p z v0 of
               (date, _) \<Rightarrow>
                 (case at values 1 of
                    None \<Rightarrow> Panic (IndexOutOfRange 1 (length values))
                  | Some v1 \<Rightarrow>
                      parseTagsLoop p z tokens fin (result @ [\<lparr>Name = v1, TagDate = date\<rparr>])))
      else parseTagsLoop p z tokens fin result)"

definition parseTagsOutput ::
  "(string \<Rightarrow> 't option) \<Rightarrow> 't \<Rightarrow> string \<Rightarrow> 't GitTag list result option"
where
  "parseTagsOutput p z input =
     (case Scanner_tokens ScanLines input of
        None \<Rightarrow> None
      | Some (tokens, fin) \<Rightarrow> Some (parseTagsLoop p z tokens fin []))"

subsection \<open>\<open>Log\<close> and \<open>IsDetached\<close>\<close>

definition Log_format :: string where
  "Log_format =
     ''--pretty=format:'' @ [CHR 0x22] @ ''%ad'' @ logSeparator @ ''%at'' @ logSeparator @
     ''%cN'' @ logSeparator @ ''%h'' @ logSeparator @ ''%s'' @ logSeparator @ ''%b'' @
     endLine @ [CHR 0x22]"

text \<open>The argument list \<open>params\<close> that \<open>Log\<close> builds for a range.\<close>

definition Log_params :: "LogRange \<Rightarrow> string list" where
  "Log_params lr =
     (let params = [''log'', ''--date=short'', Log_format] in
      if range_start lr \<noteq> [] \<or> range_end lr \<noteq> [] then
        if rangeType lr = DateRange
        then params @ [''--since'', range_start lr, ''--until'', addDay (range_end lr)]
        else if range_start lr = [] then params @ [range_end lr]
        else params @ [range_start lr @ ''..'' @ str (range_end lr) ''HEAD'']
      else params)"

definition Log ::
  "Command \<Rightarrow> 'm MessageProcessor \<Rightarrow> LogRange \<Rightarrow> 'm GitCommitLog list result option"
where
  "Log cmd messageProcessor lr =
     (case cmd (''git'' # Log_params lr) of
        (out, err) \<Rightarrow>
          (case err of
             Some e \<Rightarrow> Some (Err (combinedOutputErr e out))
           | None \<Rightarrow> parseLogOutput messageProcessor out))"

definition IsDetached :: "Command \<Rightarrow> bool \<times> error option" where
  "IsDetached cmd =
     (case cmd [''git'', ''symbolic-ref'', ''-q'', ''HEAD''] of
        (out, err) \<Rightarrow>
          (let output = out in
           if err \<noteq> None then
             if output = [] then (True, None)
             else (False, Some (ErrorsNew output))
           else (False, None)))"

section \<open>Notions used in the statements\<close>

text \<open>
  A field of a commit record: a string after which the first separator of the record is
  the one that ends it. (It holds no \<open>###\<close>, and it does not end in \<open>#\<close>, which would
  make the separator start one byte early.)
\<close>

definition field :: "string \<Rightarrow> bool" where
  "field f \<longleftrightarrow> bytes_Index (f @ logSeparator) logSeparator = Some (length f)"

text \<open>
  A decimal integer is an optional sign and one or more decimal digits; the leading
  number of a string is what the digits after its optional sign denote (0 if there are
  none).
\<close>

definition unsigned_part :: "string \<Rightarrow> string" where
  "unsigned_part s =
     (case s of
        [] \<Rightarrow> []
      | c # cs \<Rightarrow> if c = CHR ''+'' \<or> c = CHR ''-'' then cs else s)"

definition decimal_integer :: "string \<Rightarrow> bool" where
  "decimal_integer s \<longleftrightarrow> unsigned_part s \<noteq> [] \<and> list_all isDigit (unsigned_part s)"

definition leading_number :: "string \<Rightarrow> nat" where
  "leading_number s = decimal (takeWhile isDigit (unsigned_part s)) 0"

text \<open>
  A valid integer is a decimal integer that an \<open>int\<close> of 64 bits holds: at most \<open>2 ^ 63\<close>
  after a minus sign, less than \<open>2 ^ 63\<close> otherwise; its value is the number its digits
  denote, with the sign.
\<close>

definition valid_integer :: "string \<Rightarrow> bool" where
  "valid_integer s \<longleftrightarrow>
     decimal_integer s \<and>
     (if hd s = CHR ''-'' then leading_number s \<le> 2 ^ 63 else leading_number s < 2 ^ 63)"

definition integer_value :: "string \<Rightarrow> int" where
  "integer_value s =
     (if hd s = CHR ''-'' then - int (leading_number s) else int (leading_number s))"

text \<open>
  A calendar date that the layout \<open>2006-01-02\<close> can write with a four-digit year, and the
  number of a day: the days of the years before it, of the months before it, and its day
  of the month. The day after a date has the next number.
\<close>

definition valid_date :: "nat \<Rightarrow> nat \<Rightarrow> nat \<Rightarrow> bool" where
  "valid_date y m d \<longleftrightarrow> y \<le> 9999 \<and> 1 \<le> m \<and> m \<le> 12 \<and> 1 \<le> d \<and> d \<le> daysIn m y"

definition yearLen :: "nat \<Rightarrow> nat" where
  "yearLen y = (if isLeap y then 366 else 365)"

fun dayNumber :: "Time \<Rightarrow> nat" where
  "dayNumber (TimeDate y m d) =
     sum_list (map yearLen [0..<y]) + sum_list (map (\<lambda>j. daysIn j y) [1..<m]) + d"

text \<open>A calendar date, of any year: a month from 1 to 12 and a day that the month has.\<close>

fun calendar_date :: "Time \<Rightarrow> bool" where
  "calendar_date (TimeDate y m d) \<longleftrightarrow> 1 \<le> m \<and> m \<le> 12 \<and> 1 \<le> d \<and> d \<le> daysIn m y"

text \<open>
  The two split functions of this file, \<open>splitAt b\<close> and \<open>ScanLines\<close>, have one shape:
  the token ends before the first instance of a delimiter, or is the rest at the end of
  input, and a function \<open>post\<close> (the identity, \<open>dropCR\<close>) is applied to it.
\<close>

definition delim_split :: "(string \<Rightarrow> string) \<Rightarrow> string \<Rightarrow> SplitFunc" where
  "delim_split post b data atEOF =
     (if atEOF \<and> data = [] then (0, None, None)
      else case bytes_Index data b of
             Some i \<Rightarrow> (int (i + length b), Some (post (take i data)), None)
           | None \<Rightarrow>
               if atEOF then (int (length data), Some (post data), None)
               else (0, None, None))"

text \<open>
  What a scanner yields with such a split function, read off the input: the text before
  each delimiter, as long as text and delimiter fit the largest buffer of
  \<open>MaxScanTokenSize\<close> bytes, and at the end a rest without delimiter if it is not empty
  and shorter than that buffer. (Where a token does not fit, \<open>Scan\<close> stops with
  \<open>ErrTooLong\<close>, which neither loop of this file looks at.)
\<close>

function delimited :: "string \<Rightarrow> string \<Rightarrow> string list" where
  "delimited b data =
     (case bytes_Index data b of
        Some i \<Rightarrow>
          if b \<noteq> [] \<and> i + length b \<le> MaxScanTokenSize
          then take i data # delimited b (drop (i + length b) data)
          else []
      | None \<Rightarrow> if data \<noteq> [] \<and> length data < MaxScanTokenSize then [data] else [])"
  by pat_completeness auto
termination
proof (relation "measure (\<lambda>(b, data). length data)")
  fix b data :: string and i :: nat
  assume "bytes_Index data b = Some i" and "b \<noteq> [] \<and> i + length b \<le> MaxScanTokenSize"
  then have "i + length b \<le> length data" and "0 < i + length b"
    by (simp_all add: bytes_Index_le)
  then have "length data - (i + length b) < length data"
    by arith
  then show "((b, drop (i + length b) data), (b, data)) \<in> measure (\<lambda>(b, data). length data)"
    by simp
qed simp

text \<open>
  The states a scanner over a \<open>strings.Reader\<close> is in between two passes of the loop of
  \<open>Scan\<close>, and a number that every pass makes smaller.
\<close>

definition scanner_ok :: "Scanner \<Rightarrow> bool" where
  "scanner_ok s \<longleftrightarrow>
     \<not> sc_done s \<and> sc_start s + length (sc_data s) \<le> sc_buflen s \<and>
     sc_buflen s \<le> MaxScanTokenSize \<and>
     (sc_err s = None \<or>
      sc_err s = Some EOF \<and> sc_r s = [] \<and> sc_start s + length (sc_data s) < sc_buflen s)"

definition scan_measure :: "Scanner \<Rightarrow> nat" where
  "scan_measure s =
     2 * length (sc_data s) + 3 * length (sc_r s) + (if sc_err s = None then 1 else 0)"

text \<open>
  Records joined again, each with the marker after it; and the records of an input that
  end at a marker: what the scanner yields before it comes to a rest without marker.
\<close>

definition join_records :: "string \<Rightarrow> string list \<Rightarrow> string" where
  "join_records b rs = concat (map (\<lambda>r. r @ b) rs)"

function terminated :: "string \<Rightarrow> string \<Rightarrow> string list" where
  "terminated b data =
     (case bytes_Index data b of
        Some i \<Rightarrow>
          if b \<noteq> [] \<and> i + length b \<le> MaxScanTokenSize
          then take i data # terminated b (drop (i + length b) data)
          else []
      | None \<Rightarrow> [])"
  by pat_completeness auto
termination
proof (relation "measure (\<lambda>(b, data). length data)")
  fix b data :: string and i :: nat
  assume "bytes_Index data b = Some i" and "b \<noteq> [] \<and> i + length b \<le> MaxScanTokenSize"
  then have "i + length b \<le> length data" and "0 < i + length b"
    by (simp_all add: bytes_Index_le)
  then have "length data - (i + length b) < length data"
    by arith
  then show "((b, drop (i + length b) data), (b, data)) \<in> measure (\<lambda>(b, data). length data)"
    by simp
qed simp

text \<open>
  A line \<open>l\<close> of a tag listing that reads \<open>d#n\<close>, once a carriage return at its end and
  the white space around it are removed, with no other \<open>#\<close> in it; the line has no line
  feed and fits the scanner's buffer together with the line feed that ends it.
\<close>

definition tag_line :: "string \<Rightarrow> string \<Rightarrow> string \<Rightarrow> bool" where
  "tag_line l d n \<longleftrightarrow>
     CHR 0x0A \<notin> set l \<and> length l < MaxScanTokenSize \<and>
     strings_TrimSpace (dropCR l) = d @ ''#'' @ n \<and>
     CHR ''#'' \<notin> set d \<and> CHR ''#'' \<notin> set n"

section \<open>Evaluation\<close>

text \<open>
  The recursive equations of the functions defined by \<^theory_text>\<open>function\<close> are unfolded on
  demand only; the lemma collections below evaluate the model on concrete inputs.
\<close>

declare strings_Split.simps [simp del]
declare strings_Count.simps [simp del]
declare trimLeftSeqs.simps [simp del]
declare utoa.simps [simp del]
declare time_Format_date.simps [simp del]
declare AddDate_day.simps [simp del]
declare dayNumber.simps [simp del]
declare delimited.simps [simp del]
declare terminated.simps [simp del]

lemmas go_string_defs =
  strings_Split.simps strings_Trim_def strings_TrimSpace_def trimLeftSeqs.simps whiteSpace_def
  at_def logSeparator_def endLine_def

lemmas go_number_defs =
  strconv_Atoi_def ParseInt_def ParseUint_def isDigit_def digitVal_def maxUint64_def

lemmas go_time_defs =
  time_Parse_date_def isDigit_def digitVal_def digitChar_def daysIn_def isLeap_def appendInt_def
  utoa.simps time_Format_date.simps AddDate_day.simps

lemmas go_scanner_defs =
  Scanner_tokens_def NewScanner_def scan_tokens.simps scan_step_def scan_more_def
  scan_fill_def setErr_def MaxScanTokenSize_def startBufSize_def maxInt_def
  maxConsecutiveEmptyReads_def

section \<open>The first instance of a separator\<close>

lemma bytes_Index_Some_iff:
  "bytes_Index s b = Some i \<longleftrightarrow>
     i \<le> length s \<and> prefix b (drop i s) \<and> (\<forall>j<i. \<not> prefix b (drop j s))"
proof (induction s arbitrary: i)
  case Nil
  then show ?case by auto
next
  case (Cons c cs)
  show ?case
  proof (cases "prefix b (c # cs)")
    case True
    then show ?thesis by (cases i) auto
  next
    case False
    show ?thesis
    proof (cases i)
      case 0
      with False show ?thesis by simp
    next
      case (Suc i')
      have "(\<forall>j<Suc i'. \<not> prefix b (drop j (c # cs))) \<longleftrightarrow> (\<forall>j<i'. \<not> prefix b (drop j cs))"
        using False by (auto simp: less_Suc_eq_0_disj)
      with False Suc Cons.IH[of i'] show ?thesis by auto
    qed
  qed
qed

lemma bytes_Index_None_iff:
  "bytes_Index s b = None \<longleftrightarrow> (\<forall>j\<le>length s. \<not> prefix b (drop j s))"
proof (induction s)
  case Nil
  then show ?case by auto
next
  case (Cons c cs)
  have "(\<forall>j\<le>length (c # cs). \<not> prefix b (drop j (c # cs))) \<longleftrightarrow>
        \<not> prefix b (c # cs) \<and> (\<forall>j\<le>length cs. \<not> prefix b (drop j cs))"
    (is "?L \<longleftrightarrow> ?R")
  proof
    assume l: ?L
    then have "\<not> prefix b (drop 0 (c # cs))" by blast
    moreover have "\<forall>j\<le>length cs. \<not> prefix b (drop j cs)"
    proof (intro allI impI)
      fix j assume "j \<le> length cs"
      with l have "\<not> prefix b (drop (Suc j) (c # cs))" by auto
      then show "\<not> prefix b (drop j cs)" by simp
    qed
    ultimately show ?R by simp
  next
    assume r: ?R
    show ?L
    proof (intro allI impI)
      fix j assume "j \<le> length (c # cs)"
      with r show "\<not> prefix b (drop j (c # cs))" by (cases j) auto
    qed
  qed
  with Cons show ?case by auto
qed

lemma prefix_append_short:
  assumes "length b \<le> length xs"
  shows "prefix b (xs @ t) \<longleftrightarrow> prefix b xs"
  using assms by (auto simp: prefix_append)

lemma prefix_drop_append:
  assumes "j + length b \<le> length s"
  shows "prefix b (drop j (s @ t)) \<longleftrightarrow> prefix b (drop j s)"
proof -
  from assms have "length b \<le> length (drop j s)" by simp
  then have "prefix b (drop j s @ t) \<longleftrightarrow> prefix b (drop j s)"
    by (rule prefix_append_short)
  moreover from assms have "drop j (s @ t) = drop j s @ t" by simp
  ultimately show ?thesis by (simp only:)
qed

lemma bytes_Index_append:
  assumes "bytes_Index s b = Some i"
  shows "bytes_Index (s @ t) b = Some i"
proof -
  from assms have le: "i + length b \<le> length s" by (rule bytes_Index_le)
  from assms have p: "prefix b (drop i s)" and l: "\<forall>j<i. \<not> prefix b (drop j s)"
    by (simp_all add: bytes_Index_Some_iff)
  from le p have "prefix b (drop i (s @ t))"
    using prefix_drop_append[of i b s t] by blast
  moreover have "\<forall>j<i. \<not> prefix b (drop j (s @ t))"
  proof (intro allI impI)
    fix j assume "j < i"
    with le have "j + length b \<le> length s" by simp
    with l \<open>j < i\<close> show "\<not> prefix b (drop j (s @ t))"
      using prefix_drop_append[of j b s t] by blast
  qed
  moreover from le have "i \<le> length (s @ t)" by simp
  ultimately show ?thesis by (simp add: bytes_Index_Some_iff)
qed

lemma bytes_Index_beyond:
  assumes "bytes_Index s b = None" and "bytes_Index (s @ t) b = Some i"
  shows "length s < i + length b"
proof (rule ccontr)
  assume "\<not> length s < i + length b"
  then have le: "i + length b \<le> length s" by simp
  from assms(2) have "prefix b (drop i (s @ t))" by (simp add: bytes_Index_Some_iff)
  with le have "prefix b (drop i s)"
    using prefix_drop_append[of i b s t] by blast
  moreover from le have "i \<le> length s" by simp
  ultimately show False using assms(1) by (auto simp: bytes_Index_None_iff)
qed

section \<open>Dates: parsing, formatting, the next day\<close>

lemma lt10_cases: "k < 10 \<Longrightarrow> k = 0 \<or> k = 1 \<or> k = 2 \<or> k = 3 \<or> k = 4 \<or> k = 5 \<or> k = 6 \<or> k = 7 \<or> k = 8 \<or> k = (9::nat)"
  by arith

lemma digitChar_digit: "k < 10 \<Longrightarrow> isDigit (digitChar k) \<and> digitVal (digitChar k) = k"
  using lt10_cases[of k] by (auto simp: isDigit_def digitVal_def digitChar_def)

lemma isDigit_cases: "isDigit c \<Longrightarrow> c \<in> set ''0123456789''"
proof -
  assume a: "isDigit c"
  define n where "n = (of_char c :: nat)"
  from a have "48 \<le> n" "n \<le> 57" by (simp_all add: isDigit_def n_def)
  then have "n = 48 \<or> n = 49 \<or> n = 50 \<or> n = 51 \<or> n = 52 \<or> n = 53 \<or> n = 54 \<or> n = 55 \<or> n = 56 \<or> n = 57" by arith
  then have "n \<in> of_char ` set ''0123456789''" by auto
  then obtain d where "d \<in> set ''0123456789''" "(of_char c :: nat) = of_char d" unfolding n_def by blast
  then show ?thesis by (simp only: of_char_eq_iff)
qed

lemma digitChar_digitVal: "isDigit c \<Longrightarrow> digitChar (digitVal c) = c \<and> digitVal c < 10"
  by (drule isDigit_cases) (auto simp: digitVal_def digitChar_def)

lemma digitChar_0 [simp]: "digitChar 0 = CHR ''0''" by (simp add: digitChar_def)

lemma utoa_lt10: "n < 10 \<Longrightarrow> utoa n = [digitChar n]"
  by (subst utoa.simps) (simp add: digitChar_def)

lemma utoa_ge10: "10 \<le> n \<Longrightarrow> utoa n = utoa (n div 10) @ [digitChar (n mod 10)]"
  by (subst utoa.simps) (simp add: digitChar_def)

lemma appendInt2: "n < 100 \<Longrightarrow> appendInt n 2 = [digitChar (n div 10), digitChar (n mod 10)]"
  by (cases "n < 10") (simp_all add: appendInt_def utoa_lt10 utoa_ge10 numeral_2_eq_2)

lemma appendInt4: "n < 10000 \<Longrightarrow> appendInt n 4 = [digitChar (n div 1000), digitChar (n div 100 mod 10), digitChar (n div 10 mod 10), digitChar (n mod 10)]"
proof -
  assume n: "n < 10000"
  consider "n < 10" | "10 \<le> n" "n < 100" | "100 \<le> n" "n < 1000" | "1000 \<le> n" by linarith
  then show ?thesis
  proof cases
    case 1 then show ?thesis by (simp add: appendInt_def utoa_lt10 numeral_3_eq_3)
  next
    case 2 
    then have "utoa n = [digitChar (n div 10), digitChar (n mod 10)]" by (simp add: utoa_ge10 utoa_lt10)
    with 2 show ?thesis by (simp add: appendInt_def numeral_2_eq_2)
  next
    case 3
    then have "utoa n = [digitChar (n div 10 div 10), digitChar (n div 10 mod 10), digitChar (n mod 10)]" by (simp add: utoa_ge10 utoa_lt10)
    with 3 show ?thesis by (simp add: appendInt_def div_mult2_eq[symmetric])
  next
    case 4
    with n have "utoa n = [digitChar (n div 10 div 10 div 10), digitChar (n div 10 div 10 mod 10), digitChar (n div 10 mod 10), digitChar (n mod 10)]" by (simp add: utoa_ge10 utoa_lt10)
    with 4 show ?thesis by (simp add: appendInt_def div_mult2_eq[symmetric])
  qed
qed

lemma daysIn_le: "1 \<le> m \<Longrightarrow> m \<le> 12 \<Longrightarrow> daysIn m y \<le> 31"
proof -
  assume "1 \<le> m" "m \<le> 12"
  then have "m = 1 \<or> m = 2 \<or> m = 3 \<or> m = 4 \<or> m = 5 \<or> m = 6 \<or> m = 7 \<or> m = 8 \<or> m = 9 \<or> m = 10 \<or> m = 11 \<or> m = 12" by arith
  then show ?thesis by (auto simp: daysIn_def)
qed

lemma time_Parse_Format:
  assumes "valid_date y m d"
  shows "time_Parse_date (time_Format_date (TimeDate y m d)) = Some (TimeDate y m d)"
proof -
  from assms have y: "y < 10000" and m: "1 \<le> m" "m \<le> 12" and d: "1 \<le> d" "d \<le> daysIn m y"
    by (simp_all add: valid_date_def)
  from m d daysIn_le[of m y] have d31: "d < 100" and m100: "m < 100" by simp_all
  have dy: "y div 1000 < 10" "y div 100 mod 10 < 10" "y div 10 mod 10 < 10" "y mod 10 < 10"
    using y by simp_all
  have dm: "m div 10 < 10" "m mod 10 < 10" "d div 10 < 10" "d mod 10 < 10" using m100 d31 by simp_all
  have yy: "((y div 1000 * 10 + y div 100 mod 10) * 10 + y div 10 mod 10) * 10 + y mod 10 = y"
  proof -
    have "y div 1000 = y div 100 div 10" and "y div 100 = y div 10 div 10"
      by (simp_all add: div_mult2_eq[symmetric])
    then have "y div 1000 * 10 + y div 100 mod 10 = y div 100"
      and "y div 100 * 10 + y div 10 mod 10 = y div 10"
      by simp_all
    then show ?thesis by simp
  qed
  have dec: "decimal [digitChar (y div 1000), digitChar (y div 100 mod 10),
      digitChar (y div 10 mod 10), digitChar (y mod 10)] 0 = y"
    using yy by (simp add: digitChar_digit dy)
  show ?thesis
    using m d
    by (simp add: time_Parse_date_def appendInt4[OF y] appendInt2[OF m100] appendInt2[OF d31]
        digitChar_digit dy dm dec Let_def time_Format_date.simps del: decimal.simps)
qed

lemma div_mod_digit: "e < 10 \<Longrightarrow> (q * 10 + e) div 10 = q \<and> (q * 10 + e) mod 10 = (e::nat)"
  by simp

lemma appendInt2_digits:
  assumes "a < 10" "b < 10"
  shows "appendInt (a * 10 + b) 2 = [digitChar a, digitChar b]"
proof -
  from assms have "a * 10 + b < 100" by simp
  then show ?thesis using assms by (simp add: appendInt2)
qed

lemma appendInt4_digits:
  assumes "a < 10" "b < 10" "c < 10" "e < 10"
  shows "appendInt (((a * 10 + b) * 10 + c) * 10 + e) 4 = [digitChar a, digitChar b, digitChar c, digitChar e]"
proof -
  define y where "y = ((a * 10 + b) * 10 + c) * 10 + e"
  from assms have y: "y < 10000" by (simp add: y_def)
  have 1: "y mod 10 = e" "y div 10 = (a * 10 + b) * 10 + c"
    using div_mod_digit[OF assms(4), of "(a * 10 + b) * 10 + c"] by (simp_all only: y_def)
  have 2: "y div 10 mod 10 = c" "y div 10 div 10 = a * 10 + b"
    using div_mod_digit[OF assms(3), of "a * 10 + b"] by (simp_all only: 1)
  have 3: "y div 10 div 10 mod 10 = b" "y div 10 div 10 div 10 = a"
    using div_mod_digit[OF assms(2), of a] by (simp_all only: 2)
  have "y div 100 = y div 10 div 10" "y div 1000 = y div 10 div 10 div 10"
    by (simp_all add: div_mult2_eq[symmetric])
  with 1 2 3 have "y div 1000 = a" "y div 100 mod 10 = b" "y div 10 mod 10 = c" "y mod 10 = e" by simp_all
  with appendInt4[OF y] show ?thesis unfolding y_def by simp
qed

lemma time_Parse_date_SomeD:
  assumes "time_Parse_date s = Some (TimeDate y m d)"
  shows "valid_date y m d \<and> s = time_Format_date (TimeDate y m d)"
proof -
  from assms have "4 \<le> length s"
    by (auto simp: time_Parse_date_def split: if_splits)
  then obtain a b c e rest where s: "s = a # b # c # e # rest"
    by (cases s; cases "tl s"; cases "tl (tl s)"; cases "tl (tl (tl s))") auto
  from assms have digs: "isDigit a" "isDigit b" "isDigit c" "isDigit e"
    unfolding s by (auto simp: time_Parse_date_def split: if_splits)
  from assms digs obtain m1 m2 d1 d2 where
    rest: "rest = [CHR ''-'', m1, m2, CHR ''-'', d1, d2]" and
    md: "isDigit m1" "isDigit m2" "isDigit d1" "isDigit d2" and
    vals: "y = ((digitVal a * 10 + digitVal b) * 10 + digitVal c) * 10 + digitVal e"
      "m = digitVal m1 * 10 + digitVal m2" "d = digitVal d1 * 10 + digitVal d2" and
    rng: "1 \<le> m" "m \<le> 12" "1 \<le> d" "d \<le> daysIn m y"
    unfolding s
    by (auto simp: time_Parse_date_def Let_def split: if_splits list.splits option.splits
        elim!: getnum2.elims)
  note lt = digs[THEN digitChar_digitVal, THEN conjunct2] md[THEN digitChar_digitVal, THEN conjunct2]
  note eq = digs[THEN digitChar_digitVal, THEN conjunct1] md[THEN digitChar_digitVal, THEN conjunct1]
  have "y \<le> 9999" using lt unfolding vals by simp
  with rng have "valid_date y m d" by (simp add: valid_date_def)
  moreover have "appendInt y 4 = [a, b, c, e]"
    unfolding vals by (simp only: appendInt4_digits[OF lt(1) lt(2) lt(3) lt(4)] eq)
  moreover have "appendInt m 2 = [m1, m2]" "appendInt d 2 = [d1, d2]"
    unfolding vals by (simp_all only: appendInt2_digits[OF lt(5) lt(6)] appendInt2_digits[OF lt(7) lt(8)] eq)
  ultimately show ?thesis by (simp add: s rest time_Format_date.simps)
qed

lemma months_upt: "[1..<13] = [1, 2, 3, 4, 5, 6, 7, 8, 9, 10, 11, 12::nat]"
  by (simp add: upt_conv_Cons)

lemma months_sum: "sum_list (map (\<lambda>j. daysIn j y) [1..<13]) = yearLen y"
  unfolding months_upt by (simp add: daysIn_def yearLen_def)

lemma AddDate_day_next:
  assumes "1 \<le> m" "m \<le> 12" "d \<le> daysIn m y"
  shows "dayNumber (AddDate_day (TimeDate y m d)) = dayNumber (TimeDate y m d) + 1"
proof (cases "d + 1 \<le> daysIn m y")
  case True
  then show ?thesis by (simp add: AddDate_day.simps dayNumber.simps)
next
  case False
  with assms have d: "d = daysIn m y" by simp
  show ?thesis
  proof (cases "m < 12")
    case True
    have "[1..<m + 1] = [1..<m] @ [m]"
      using assms(1) by simp
    with True assms False show ?thesis
      by (simp add: d AddDate_day.simps dayNumber.simps)
  next
    case False
    with assms have m: "m = 12" by simp
    have "[1..<13] = [1..<12] @ [12::nat]"
      by (simp add: upt_conv_Cons)
    with months_sum[of y]
    have "sum_list (map (\<lambda>j. daysIn j y) [1..<12]) + daysIn 12 y = yearLen y"
      by simp
    then show ?thesis using \<open>\<not> d + 1 \<le> daysIn m y\<close>
      by (simp add: m d AddDate_day.simps dayNumber.simps)
  qed
qed

lemma addDay_valid:
  assumes "valid_date y m d"
  shows "addDay (time_Format_date (TimeDate y m d)) = time_Format_date (AddDate_day (TimeDate y m d))"
proof -
  have "time_Format_date (TimeDate y m d) \<noteq> []" by (simp add: time_Format_date.simps)
  then show ?thesis by (simp add: addDay_def time_Parse_Format[OF assms])
qed

lemma addDay_other:
  assumes "\<And>y m d. valid_date y m d \<Longrightarrow> s \<noteq> time_Format_date (TimeDate y m d)"
  shows "addDay s = s"
proof (cases "time_Parse_date s")
  case None
  then show ?thesis by (simp add: addDay_def)
next
  case (Some t)
  obtain y m d where "t = TimeDate y m d" by (cases t)
  with Some time_Parse_date_SomeD[of s y m d] assms[of y m d] show ?thesis by simp
qed

text \<open>
  The day after a calendar date is a calendar date, and it is the only calendar date
  with the next day number: a date's number lies in the days of its year and, within
  the year, in the days of its month.
\<close>

lemma daysIn_ge: "1 \<le> m \<Longrightarrow> m \<le> 12 \<Longrightarrow> 28 \<le> daysIn m y"
proof -
  assume "1 \<le> m" "m \<le> 12"
  then have "m = 1 \<or> m = 2 \<or> m = 3 \<or> m = 4 \<or> m = 5 \<or> m = 6 \<or> m = 7 \<or> m = 8 \<or> m = 9 \<or> m = 10 \<or> m = 11 \<or> m = 12" by arith
  then show ?thesis by (auto simp: daysIn_def)
qed

lemma AddDate_day_calendar:
  assumes "1 \<le> m" "m \<le> 12" "d \<le> daysIn m y"
  shows "calendar_date (AddDate_day (TimeDate y m d))"
proof (cases "d + 1 \<le> daysIn m y")
  case True
  with assms show ?thesis by (simp add: AddDate_day.simps)
next
  case False
  show ?thesis
  proof (cases "m < 12")
    case True
    with assms have "28 \<le> daysIn (m + 1) y" by (intro daysIn_ge) simp_all
    with True False assms show ?thesis by (simp add: AddDate_day.simps)
  next
    case m: False
    have "daysIn 1 (y + 1) = 31" by (simp add: daysIn_def)
    with m False show ?thesis by (simp add: AddDate_day.simps)
  qed
qed

lemma AddDate_day_valid:
  assumes v: "valid_date y m d" and n: "(y, m, d) \<noteq> (9999, 12, 31)"
  shows "\<exists>y' m' d'. AddDate_day (TimeDate y m d) = TimeDate y' m' d' \<and> valid_date y' m' d'"
proof -
  from v have r: "1 \<le> m" "m \<le> 12" "d \<le> daysIn m y" and y: "y \<le> 9999"
    by (simp_all add: valid_date_def)
  obtain y' m' d' where t: "AddDate_day (TimeDate y m d) = TimeDate y' m' d'"
    by (cases "AddDate_day (TimeDate y m d)")
  from AddDate_day_calendar[OF r] have c: "1 \<le> m'" "m' \<le> 12" "1 \<le> d'" "d' \<le> daysIn m' y'"
    by (simp_all add: t)
  have "y' \<le> 9999"
  proof (cases "d + 1 \<le> daysIn m y \<or> m < 12")
    case True
    with t y show ?thesis by (auto simp: AddDate_day.simps split: if_splits)
  next
    case False
    then have nd: "\<not> d + 1 \<le> daysIn m y" and nm: "\<not> m < 12" by simp_all
    from nm r have m: "m = 12" by simp
    from nd r(3) have "d = daysIn m y" by arith
    with m have "d = 31" by (simp add: daysIn_def)
    with m n have "y \<noteq> 9999" by simp
    with y have "y + 1 \<le> 9999" by simp
    with t False show ?thesis by (auto simp: AddDate_day.simps split: if_splits)
  qed
  with c t show ?thesis by (simp add: valid_date_def)
qed

lemma time_Format_date_length:
  assumes "valid_date y m d"
  shows "length (time_Format_date (TimeDate y m d)) = 10"
proof -
  from assms have y: "y < 10000" and m: "1 \<le> m" "m \<le> 12" and d: "1 \<le> d" "d \<le> daysIn m y"
    by (simp_all add: valid_date_def)
  from m d daysIn_le[of m y] have d100: "d < 100" and m100: "m < 100" by simp_all
  show ?thesis
    by (simp add: time_Format_date.simps appendInt4[OF y] appendInt2[OF m100] appendInt2[OF d100])
qed

lemma sum_upt_mono:
  fixes f :: "nat \<Rightarrow> nat"
  assumes "a \<le> b"
  shows "sum_list (map f [k..<a]) \<le> sum_list (map f [k..<b])"
  using assms
proof (induction b)
  case 0
  then show ?case by simp
next
  case (Suc b)
  show ?case
  proof (cases "a = Suc b")
    case True
    then show ?thesis by simp
  next
    case False
    with Suc.prems have ab: "a \<le> b" by simp
    show ?thesis
    proof (cases "k \<le> b")
      case True
      with Suc.IH[OF ab] show ?thesis by simp
    next
      case False
      with ab have e: "sum_list (map f [k..<a]) = 0" by simp
      show ?thesis unfolding e by (rule le0)
    qed
  qed
qed

lemma year_start_mono:
  assumes "y < y'"
  shows "sum_list (map yearLen [0..<y]) + yearLen y \<le> sum_list (map yearLen [0..<y'])"
proof -
  from assms have "Suc y \<le> y'" by simp
  from sum_upt_mono[OF this, of yearLen 0] show ?thesis by simp
qed

lemma month_start_mono:
  assumes "1 \<le> m" "m < m'"
  shows "sum_list (map (\<lambda>j. daysIn j y) [1..<m]) + daysIn m y \<le>
         sum_list (map (\<lambda>j. daysIn j y) [1..<m'])"
proof -
  from assms have "Suc m \<le> m'" by simp
  from sum_upt_mono[OF this, of "\<lambda>j. daysIn j y" 1] assms(1) show ?thesis by simp
qed

lemma day_in_year:
  assumes "calendar_date (TimeDate y m d)"
  shows "sum_list (map (\<lambda>j. daysIn j y) [1..<m]) + d \<le> yearLen y"
proof -
  from assms have m: "1 \<le> m" "m < 13" and d: "d \<le> daysIn m y" by simp_all
  from month_start_mono[OF m, of y] months_sum[of y] d show ?thesis by simp
qed

lemma dayNumber_year_less:
  assumes "calendar_date (TimeDate y m d)" "calendar_date (TimeDate y' m' d')" "y < y'"
  shows "dayNumber (TimeDate y m d) < dayNumber (TimeDate y' m' d')"
proof -
  from assms(2) have "1 \<le> d'" by simp
  with day_in_year[OF assms(1)] year_start_mono[OF assms(3)] show ?thesis
    by (simp add: dayNumber.simps)
qed

lemma dayNumber_month_less:
  assumes "calendar_date (TimeDate y m d)" "calendar_date (TimeDate y m' d')" "m < m'"
  shows "dayNumber (TimeDate y m d) < dayNumber (TimeDate y m' d')"
proof -
  from assms(1) have m: "1 \<le> m" and d: "d \<le> daysIn m y" by simp_all
  from assms(2) have "1 \<le> d'" by simp
  with month_start_mono[OF m assms(3), of y] d show ?thesis
    by (simp add: dayNumber.simps)
qed

lemma dayNumber_inj:
  assumes "calendar_date t" "calendar_date t'" "dayNumber t = dayNumber t'"
  shows "t = t'"
proof -
  obtain y m d where t: "t = TimeDate y m d" by (cases t)
  obtain y' m' d' where t': "t' = TimeDate y' m' d'" by (cases t')
  note c = assms(1,2)[unfolded t t']
  have y: "y = y'"
    using dayNumber_year_less[OF c(1) c(2)] dayNumber_year_less[OF c(2) c(1)] assms(3)
    unfolding t t' by (cases y y' rule: linorder_cases) simp_all
  have m: "m = m'"
    using dayNumber_month_less[OF c(1) c(2)[folded y]] dayNumber_month_less[OF c(2)[folded y] c(1)]
      assms(3)
    unfolding t t' y[symmetric] by (cases m m' rule: linorder_cases) simp_all
  from assms(3) have "d = d'"
    unfolding t t' y m by (simp add: dayNumber.simps)
  with y m show ?thesis by (simp add: t t')
qed

lemma Format_9999: "time_Format_date (TimeDate 9999 12 31) = ''9999-12-31''"
  by (simp add: go_time_defs)

lemma addDay_9999: "addDay ''9999-12-31'' = ''10000-01-01''"
  by (simp add: addDay_def go_time_defs Let_def)

section \<open>What the scanner yields\<close>

lemma scan_fill_ok:
  assumes "scanner_ok s" "sc_err s = None" "sc_start s + length (sc_data s) < sc_buflen s"
  shows "scanner_ok (scan_fill s) \<and>
         sc_data (scan_fill s) @ sc_r (scan_fill s) = sc_data s @ sc_r s \<and>
         scan_measure (scan_fill s) < scan_measure s"
proof (cases "sc_r s = []")
  case True
  with assms show ?thesis
    by (simp add: scan_fill_def setErr_def scanner_ok_def scan_measure_def)
next
  case False
  define n where "n = min (sc_buflen s - (sc_start s + length (sc_data s))) (length (sc_r s))"
  from False assms have n: "0 < n" "n \<le> length (sc_r s)"
    "sc_start s + length (sc_data s) + n \<le> sc_buflen s"
    by (simp_all add: n_def)
  have "scan_fill s = s\<lparr>sc_data := sc_data s @ take n (sc_r s), sc_r := drop n (sc_r s),
      sc_empties := 0\<rparr>"
    using False n(1) by (simp add: scan_fill_def n_def Let_def)
  with assms n show ?thesis
    by (simp add: scanner_ok_def scan_measure_def)
qed

lemma scan_more_ok:
  assumes ok: "scanner_ok s" and err: "sc_err s = None"
  shows "(\<exists>s'. scan_more s = Again s' \<and> scanner_ok s' \<and>
            sc_data s' @ sc_r s' = sc_data s @ sc_r s \<and> scan_measure s' < scan_measure s) \<or>
         (\<exists>s'. scan_more s = NoToken s' \<and> length (sc_data s) = MaxScanTokenSize)"
proof -
  define s1 where "s1 =
    (if sc_start s > 0 \<and>
        (sc_start s + length (sc_data s) = sc_buflen s \<or> sc_start s > sc_buflen s div 2)
     then s\<lparr>sc_start := 0\<rparr> else s)"
  have s1: "scanner_ok s1" "sc_err s1 = None" "sc_data s1 = sc_data s" "sc_r s1 = sc_r s"
    "sc_buflen s1 = sc_buflen s" "scan_measure s1 = scan_measure s"
    using ok err by (auto simp: s1_def scanner_ok_def scan_measure_def)
  have full: "sc_start s1 + length (sc_data s1) = sc_buflen s1 \<Longrightarrow>
      sc_start s1 = 0 \<and> length (sc_data s) = sc_buflen s"
    using ok by (auto simp: s1_def scanner_ok_def split: if_splits)
  show ?thesis
  proof (cases "sc_start s1 + length (sc_data s1) = sc_buflen s1")
    case True
    note f = full[OF True]
    show ?thesis
    proof (cases "sc_buflen s1 \<ge> MaxScanTokenSize")
      case True
      with ok s1 have "sc_buflen s = MaxScanTokenSize"
        by (simp add: scanner_ok_def)
      moreover have "scan_more s = NoToken (setErr ErrTooLong s1)"
        using err \<open>sc_start s1 + length (sc_data s1) = sc_buflen s1\<close> True
        by (simp add: scan_more_def s1_def[symmetric] Let_def)
      ultimately show ?thesis using f by simp
    next
      case False
      define s2 where "s2 = s1\<lparr>sc_buflen :=
        min (if sc_buflen s1 * 2 = 0 then startBufSize else sc_buflen s1 * 2) MaxScanTokenSize,
        sc_start := 0\<rparr>"
      from False have small: "\<not> sc_buflen s1 > maxInt div 2"
        by (simp add: MaxScanTokenSize_def maxInt_def)
      have more: "scan_more s = Again (scan_fill s2)"
        using err \<open>sc_start s1 + length (sc_data s1) = sc_buflen s1\<close> False small
        by (simp add: scan_more_def s1_def[symmetric] s2_def Let_def)
      have "sc_buflen s1 < sc_buflen s2"
        using False by (simp add: s2_def startBufSize_def MaxScanTokenSize_def)
      with f s1 have "scanner_ok s2" "sc_err s2 = None"
        "sc_start s2 + length (sc_data s2) < sc_buflen s2"
        "sc_data s2 = sc_data s" "sc_r s2 = sc_r s" "scan_measure s2 = scan_measure s"
        by (simp_all add: s2_def scanner_ok_def scan_measure_def)
      with scan_fill_ok[of s2] more show ?thesis by simp
    qed
  next
    case False
    with s1 have lt: "sc_start s1 + length (sc_data s1) < sc_buflen s1"
      by (simp add: scanner_ok_def)
    have "scan_more s = Again (scan_fill s1)"
      using err False by (simp add: scan_more_def s1_def[symmetric] Let_def)
    with scan_fill_ok[OF s1(1) s1(2) lt] s1 show ?thesis by simp
  qed
qed

lemma delimited_full:
  assumes "b \<noteq> []" and "bytes_Index data b = None" and "length data = MaxScanTokenSize"
  shows "delimited b (data @ r) = []"
proof (cases "bytes_Index (data @ r) b")
  case None
  with assms show ?thesis by (subst delimited.simps) simp
next
  case (Some i)
  with assms bytes_Index_beyond[of data b r i] show ?thesis
    by (subst delimited.simps) simp
qed

lemma delimited_Nil: "b \<noteq> [] \<Longrightarrow> delimited b [] = []"
  by (subst delimited.simps) simp

lemma scan_step_delim:
  assumes b: "b \<noteq> []" and ok: "scanner_ok s"
  shows "(\<exists>i s'. scan_step (delim_split post b) s = Token (post (take i (sc_data s @ sc_r s))) s' \<and>
            bytes_Index (sc_data s @ sc_r s) b = Some i \<and> i + length b \<le> MaxScanTokenSize \<and>
            scanner_ok s' \<and> sc_data s' @ sc_r s' = drop (i + length b) (sc_data s @ sc_r s) \<and>
            scan_measure s' < scan_measure s) \<or>
         (\<exists>s'. scan_step (delim_split post b) s = Token (post (sc_data s @ sc_r s)) s' \<and>
            bytes_Index (sc_data s @ sc_r s) b = None \<and> sc_data s @ sc_r s \<noteq> [] \<and>
            length (sc_data s @ sc_r s) < MaxScanTokenSize \<and>
            scanner_ok s' \<and> sc_data s' @ sc_r s' = [] \<and> scan_measure s' < scan_measure s) \<or>
         (\<exists>s'. scan_step (delim_split post b) s = Again s' \<and> scanner_ok s' \<and>
            sc_data s' @ sc_r s' = sc_data s @ sc_r s \<and> scan_measure s' < scan_measure s) \<or>
         (\<exists>s'. scan_step (delim_split post b) s = NoToken s' \<and>
            delimited b (sc_data s @ sc_r s) = [])"
    (is "?tok \<or> ?last \<or> ?again \<or> ?stop")
proof -
  from ok have nd: "\<not> sc_done s" by (simp add: scanner_ok_def)
  have same: "s\<lparr>sc_start := sc_start s + nat 0, sc_data := drop (nat 0) (sc_data s)\<rparr> = s"
    by simp
  show ?thesis
  proof (cases "bytes_Index (sc_data s) b")
    case (Some i)
    then have le: "i + length b \<le> length (sc_data s)" by (rule bytes_Index_le)
    with b have ne: "sc_data s \<noteq> []" by auto
    define s' where "s' = s\<lparr>sc_start := sc_start s + (i + length b),
      sc_data := drop (i + length b) (sc_data s), sc_empties := 0\<rparr>"
    have adv: "nat (int i + int (length b)) = i + length b" "0 < int i + int (length b)"
      using b by (cases b; simp)+
    have "scan_step (delim_split post b) s = Token (post (take i (sc_data s))) s'"
      using nd ne Some le by (simp add: scan_step_def delim_split_def s'_def Let_def adv)
    moreover from le have "take i (sc_data s @ sc_r s) = take i (sc_data s)" by simp
    moreover from Some have "bytes_Index (sc_data s @ sc_r s) b = Some i"
      by (rule bytes_Index_append)
    moreover from ok le have "i + length b \<le> MaxScanTokenSize"
      by (simp add: scanner_ok_def)
    moreover from ok le have "scanner_ok s'"
      by (auto simp: scanner_ok_def s'_def)
    moreover from le have "sc_data s' @ sc_r s' = drop (i + length b) (sc_data s @ sc_r s)"
      by (simp add: s'_def)
    moreover from le b have "scan_measure s' < scan_measure s"
      by (cases b) (auto simp: scan_measure_def s'_def)
    ultimately have ?tok by auto
    then show ?thesis by blast
  next
    case None
    show ?thesis
    proof (cases "sc_err s")
      case noerr: None
      have "scan_step (delim_split post b) s = scan_more s"
        using nd None noerr same by (simp add: scan_step_def delim_split_def Let_def)
      with scan_more_ok[OF ok noerr] delimited_full[OF b None] show ?thesis
        by auto
    next
      case (Some e)
      with ok have eof: "sc_err s = Some EOF" "sc_r s = []"
        "sc_start s + length (sc_data s) < sc_buflen s" "sc_buflen s \<le> MaxScanTokenSize"
        by (auto simp: scanner_ok_def)
      show ?thesis
      proof (cases "sc_data s = []")
        case True
        have "scan_step (delim_split post b) s = NoToken (s\<lparr>sc_start := 0, sc_data := []\<rparr>)"
          using nd eof True same by (simp add: scan_step_def delim_split_def scan_more_def Let_def)
        with True eof delimited_Nil[OF b] have ?stop by simp
        then show ?thesis by blast
      next
        case False
        define s' where "s' = s\<lparr>sc_start := sc_start s + length (sc_data s),
          sc_data := [], sc_empties := 0\<rparr>"
        have "scan_step (delim_split post b) s = Token (post (sc_data s)) s'"
          using nd eof False None by (simp add: scan_step_def delim_split_def s'_def Let_def)
        moreover from ok eof have "scanner_ok s'"
          by (auto simp: scanner_ok_def s'_def)
        moreover from False have "scan_measure s' < scan_measure s"
          by (cases "sc_data s") (auto simp: scan_measure_def s'_def)
        ultimately have ?last
          using eof None False by (simp add: s'_def)
        then show ?thesis by blast
      qed
    qed
  qed
qed

theorem scan_tokens_delim:
  assumes b: "b \<noteq> []"
  shows "scanner_ok s \<Longrightarrow>
         scan_tokens (delim_split post b) s acc =
           Some (acc @ map post (delimited b (sc_data s @ sc_r s)), ScanStopped)"
proof (induction "scan_measure s" arbitrary: s acc rule: less_induct)
  case less
  let ?split = "delim_split post b"
  let ?in = "sc_data s @ sc_r s"
  from scan_step_delim[OF b less.prems, of post]
  consider
    (tok) i s' where "scan_step ?split s = Token (post (take i ?in)) s'"
      "bytes_Index ?in b = Some i" "i + length b \<le> MaxScanTokenSize" "scanner_ok s'"
      "sc_data s' @ sc_r s' = drop (i + length b) ?in" "scan_measure s' < scan_measure s"
  | (last) s' where "scan_step ?split s = Token (post ?in) s'"
      "bytes_Index ?in b = None" "?in \<noteq> []" "length ?in < MaxScanTokenSize" "scanner_ok s'"
      "sc_data s' @ sc_r s' = []" "scan_measure s' < scan_measure s"
  | (again) s' where "scan_step ?split s = Again s'" "scanner_ok s'"
      "sc_data s' @ sc_r s' = ?in" "scan_measure s' < scan_measure s"
  | (stop) s' where "scan_step ?split s = NoToken s'" "delimited b ?in = []"
    by blast
  then show ?case
  proof cases
    case tok
    have "delimited b ?in = take i ?in # delimited b (drop (i + length b) ?in)"
      using tok(2,3) b by (subst delimited.simps) simp
    moreover have "scan_tokens ?split s acc = scan_tokens ?split s' (acc @ [post (take i ?in)])"
      by (subst scan_tokens.simps) (simp add: tok(1))
    moreover note less.hyps[OF tok(6) tok(4), of "acc @ [post (take i ?in)]"]
    ultimately show ?thesis by (simp add: tok(5))
  next
    case last
    have "delimited b ?in = [?in]"
      using last(2,3,4) by (subst delimited.simps) simp
    moreover have "scan_tokens ?split s acc = scan_tokens ?split s' (acc @ [post ?in])"
      by (subst scan_tokens.simps) (simp add: last(1))
    moreover note less.hyps[OF last(7) last(5), of "acc @ [post ?in]"]
    ultimately show ?thesis by (simp add: last(6) delimited_Nil[OF b])
  next
    case again
    have "scan_tokens ?split s acc = scan_tokens ?split s' acc"
      by (subst scan_tokens.simps) (simp add: again(1))
    with less.hyps[OF again(4) again(2), of acc] show ?thesis by (simp add: again(3))
  next
    case stop
    have "scan_tokens ?split s acc = Some (acc, ScanStopped)"
      by (subst scan_tokens.simps) (simp add: stop(1))
    with stop(2) show ?thesis by simp
  qed
qed

lemma splitAt_delim: "splitAt b = delim_split (\<lambda>t. t) b"
  by (intro ext) (simp add: splitAt_def delim_split_def Let_def)

lemma ScanLines_delim: "ScanLines = delim_split dropCR [CHR 0x0A]"
  by (intro ext) (simp add: ScanLines_def delim_split_def split: option.split)

lemma NewScanner_ok: "scanner_ok (NewScanner input)"
  by (simp add: scanner_ok_def NewScanner_def MaxScanTokenSize_def)

theorem Scanner_tokens_splitAt:
  "b \<noteq> [] \<Longrightarrow> Scanner_tokens (splitAt b) input = Some (delimited b input, ScanStopped)"
  using scan_tokens_delim[OF _ NewScanner_ok, of b "\<lambda>t. t" input "[]"]
  by (simp add: Scanner_tokens_def splitAt_delim NewScanner_def)

theorem Scanner_tokens_ScanLines:
  "Scanner_tokens ScanLines input = Some (map dropCR (delimited [CHR 0x0A] input), ScanStopped)"
  using scan_tokens_delim[OF _ NewScanner_ok, of "[CHR 0x0A]" dropCR input "[]"]
  by (simp add: Scanner_tokens_def ScanLines_delim NewScanner_def)

section \<open>Records that end at a marker\<close>

lemma bytes_Index_take:
  assumes "bytes_Index data b = Some i"
  shows "bytes_Index (take i data @ b) b = Some i"
proof -
  from assms have le: "i + length b \<le> length data" by (rule bytes_Index_le)
  from assms have p: "prefix b (drop i data)" and l: "\<forall>j<i. \<not> prefix b (drop j data)"
    by (simp_all add: bytes_Index_Some_iff)
  from p obtain zs where d: "drop i data = b @ zs" by (auto simp: prefix_def)
  have "data = take i data @ drop i data" by simp
  with d have data: "data = (take i data @ b) @ zs" by simp
  have len: "length (take i data) = i" using le by simp
  have "prefix b (drop i (take i data @ b))" using len by simp
  moreover have "\<forall>j<i. \<not> prefix b (drop j (take i data @ b))"
  proof (intro allI impI)
    fix j assume j: "j < i"
    with len have "j + length b \<le> length (take i data @ b)" by simp
    from prefix_drop_append[OF this, of zs] l j data
    show "\<not> prefix b (drop j (take i data @ b))" by metis
  qed
  ultimately show ?thesis using len by (simp add: bytes_Index_Some_iff)
qed

lemma delimited_record:
  assumes "b \<noteq> []" and "bytes_Index (r @ b) b = Some (length r)"
    and "length r + length b \<le> MaxScanTokenSize"
  shows "delimited b (r @ b @ rest) = r # delimited b rest"
proof -
  from assms(2) have "bytes_Index ((r @ b) @ rest) b = Some (length r)"
    by (rule bytes_Index_append)
  with assms(1,3) show ?thesis
    by (subst delimited.simps) simp
qed

lemma terminated_clean:
  "r \<in> set (terminated b data) \<Longrightarrow>
     bytes_Index (r @ b) b = Some (length r) \<and> length r + length b \<le> MaxScanTokenSize"
proof (induction b data rule: terminated.induct)
  case (1 b data)
  show ?case
  proof (cases "bytes_Index data b")
    case None
    with "1.prems" show ?thesis by (subst (asm) terminated.simps) simp
  next
    case (Some i)
    show ?thesis
    proof (cases "b \<noteq> [] \<and> i + length b \<le> MaxScanTokenSize")
      case False
      with Some "1.prems" show ?thesis by (subst (asm) terminated.simps) auto
    next
      case True
      from Some have le: "i + length b \<le> length data" by (rule bytes_Index_le)
      with "1.prems" Some True
      have "r = take i data \<or> r \<in> set (terminated b (drop (i + length b) data))"
        by (subst (asm) terminated.simps) auto
      then show ?thesis
      proof
        assume r: "r = take i data"
        with le have "length r = i" by simp
        with bytes_Index_take[OF Some] True r show ?thesis by simp
      next
        assume "r \<in> set (terminated b (drop (i + length b) data))"
        with "1.IH"[OF Some True] show ?thesis by simp
      qed
    qed
  qed
qed

lemma delimited_join:
  assumes "b \<noteq> []"
    and "\<forall>r\<in>set rs. bytes_Index (r @ b) b = Some (length r) \<and>
           length r + length b \<le> MaxScanTokenSize"
  shows "delimited b (join_records b rs @ rest) = rs @ delimited b rest"
  using assms(2)
proof (induction rs)
  case Nil
  then show ?case by (simp add: join_records_def)
next
  case (Cons r rs)
  then have "delimited b (r @ b @ (join_records b rs @ rest)) =
      r # delimited b (join_records b rs @ rest)"
    by (intro delimited_record[OF assms(1)]) simp_all
  with Cons show ?case by (simp add: join_records_def)
qed

lemma delimited_terminated:
  "\<exists>rem. delimited b data = terminated b data @ rem \<and>
     (rem = [] \<or> (\<exists>t. rem = [t] \<and> t \<noteq> [] \<and> bytes_Index t b = None \<and>
        data = join_records b (terminated b data) @ t))"
proof (induction b data rule: terminated.induct)
  case (1 b data)
  show ?case
  proof (cases "bytes_Index data b")
    case None
    then have t: "terminated b data = []" by (subst terminated.simps) simp
    from None have "delimited b data = (if data \<noteq> [] \<and> length data < MaxScanTokenSize then [data] else [])"
      by (subst delimited.simps) simp
    with t None show ?thesis by (auto simp: join_records_def)
  next
    case (Some i)
    show ?thesis
    proof (cases "b \<noteq> [] \<and> i + length b \<le> MaxScanTokenSize")
      case False
      with Some have "terminated b data = []" "delimited b data = []"
        by (subst terminated.simps delimited.simps, auto)+
      then show ?thesis by simp
    next
      case True
      let ?d = "drop (i + length b) data"
      from Some have le: "i + length b \<le> length data" by (rule bytes_Index_le)
      from Some have "prefix b (drop i data)" by (simp add: bytes_Index_Some_iff)
      then obtain zs where "drop i data = b @ zs" by (auto simp: prefix_def)
      then have zs: "?d = zs" "data = take i data @ b @ zs"
        by (metis append_eq_conv_conj drop_drop add.commute, metis append_take_drop_id)
      from Some True have t: "terminated b data = take i data # terminated b ?d"
        by (subst terminated.simps) simp
      from Some True have d: "delimited b data = take i data # delimited b ?d"
        by (subst delimited.simps) simp
      from "1.IH"[OF Some True] obtain rem where
        r: "delimited b ?d = terminated b ?d @ rem"
        "rem = [] \<or> (\<exists>t. rem = [t] \<and> t \<noteq> [] \<and> bytes_Index t b = None \<and>
           ?d = join_records b (terminated b ?d) @ t)"
        by blast
      have "data = take i data @ b @ ?d" using zs by simp
      with r t d show ?thesis
        by (intro exI[of _ rem]) (auto simp: join_records_def)
    qed
  qed
qed

lemma parseLogOutput_delimited:
  "parseLogOutput mp input = Some (parseLogLoop mp (delimited endLine input) ScanStopped [])"
  by (simp add: parseLogOutput_def Scanner_tokens_splitAt endLine_def)

section \<open>Fields of a record, and \<open>Atoi\<close> on what is not a number\<close>

lemma strings_Split_length:
  "sep \<noteq> [] \<Longrightarrow> length (strings_Split s sep) = strings_Count s sep + 1"
proof (induction s sep rule: strings_Split.induct)
  case (1 s sep)
  show ?case
  proof (cases "bytes_Index s sep")
    case None
    with "1.prems" show ?thesis
      by (subst strings_Split.simps, subst strings_Count.simps) simp
  next
    case (Some m)
    with "1.prems" "1.IH"[of m] show ?thesis
      by (subst strings_Split.simps, subst strings_Count.simps) simp
  qed
qed

lemma strings_Split_field:
  assumes "sep \<noteq> []" and "bytes_Index (f @ sep) sep = Some (length f)"
  shows "strings_Split (f @ sep @ rest) sep = f # strings_Split rest sep"
proof -
  from assms(2) have "bytes_Index ((f @ sep) @ rest) sep = Some (length f)"
    by (rule bytes_Index_append)
  then show ?thesis
    using assms(1) by (subst strings_Split.simps) simp
qed

lemma strings_Split_last:
  assumes "sep \<noteq> []" and "bytes_Index s sep = None"
  shows "strings_Split s sep = [s]"
  using assms by (subst strings_Split.simps) simp

lemma parseCommitLog_content:
  "parseCommitLog mp commit =
     (let content = strings_Split (strings_Trim commit [CHR 0x22]) logSeparator;
          n = length content
      in if n < 2 then Panic (IndexOutOfRange 1 n)
         else if n < 5 then Panic (IndexOutOfRange 4 n)
         else if n < 6 then Panic (IndexOutOfRange 5 n)
         else case mp (content ! 4) (content ! 5) of
                Inl err \<Rightarrow> Err err
              | Inr message \<Rightarrow>
                  Ok \<lparr>Date = content ! 0, Timestamp = fst (strconv_Atoi (content ! 1)),
                      AuthorName = content ! 2, Hash = content ! 3, Message = message\<rparr>)"
  by (auto simp: parseCommitLog_def at_def Let_def split: prod.split sum.split)

lemma field_no_hash: "CHR ''#'' \<notin> set f \<Longrightarrow> field f"
proof -
  assume a: "CHR ''#'' \<notin> set f"
  have "\<forall>j<length f. \<not> prefix logSeparator (drop j (f @ logSeparator))"
  proof (intro allI impI notI)
    fix j assume j: "j < length f" and p: "prefix logSeparator (drop j (f @ logSeparator))"
    from j have "drop j (f @ logSeparator) = (f ! j) # drop (Suc j) f @ logSeparator"
      by (simp add: Cons_nth_drop_Suc)
    with p have "f ! j = CHR ''#''" by (simp add: logSeparator_def)
    with j a show False by (metis nth_mem)
  qed
  then show ?thesis by (simp add: field_def bytes_Index_Some_iff)
qed

lemma parseCommitLog_fields:
  assumes f: "field date" "field ts" "field author" "field hash" "field subject"
    and c: "strings_Trim commit [CHR 0x22] =
      date @ logSeparator @ ts @ logSeparator @ author @ logSeparator @ hash @ logSeparator @
      subject @ logSeparator @ rest"
    and r: "strings_Split rest logSeparator = body # others"
  shows "parseCommitLog mp commit =
           (case mp subject body of
              Inl err \<Rightarrow> Err err
            | Inr message \<Rightarrow>
                Ok \<lparr>Date = date, Timestamp = fst (strconv_Atoi ts), AuthorName = author,
                    Hash = hash, Message = message\<rparr>)"
proof -
  have ne: "logSeparator \<noteq> []" by (simp add: logSeparator_def)
  have "strings_Split (strings_Trim commit [CHR 0x22]) logSeparator =
      date # ts # author # hash # subject # body # others"
    using f r by (simp add: c strings_Split_field[OF ne] field_def)
  then show ?thesis
    by (simp add: parseCommitLog_content Let_def split: sum.split)
qed

lemma field_example:
  "field ''2024-01-02''" "field ''1704153600''" "field ''Jane Doe''" "field ''abc1234''"
  "field ''fix: bug''" "field ''first part''" "field ''not a number''"
  by (simp_all add: field_def logSeparator_def)

lemma Atoi_loop_None: "Atoi_loop cs n = None \<longleftrightarrow> \<not> list_all isDigit cs"
  by (induction cs arbitrary: n) auto

lemma decimal_ge: "n \<le> decimal cs n"
proof (induction cs arbitrary: n)
  case Nil
  then show ?case by simp
next
  case (Cons c cs)
  have "n \<le> n * 10 + digitVal c" by simp
  also have "\<dots> \<le> decimal cs (n * 10 + digitVal c)" by (rule Cons.IH)
  finally show ?case by simp
qed

lemma two_64: "(2::nat) ^ 64 = 18446744073709551616"
  by simp

lemma ParseUint_loop_syntax:
  assumes "\<not> list_all isDigit cs" and "decimal (takeWhile isDigit cs) n < 2 ^ 64"
  shows "ParseUint_loop cs n = (0, Some ErrSyntax)"
  using assms
proof (induction cs arbitrary: n)
  case Nil
  then show ?case by simp
next
  case (Cons c cs)
  show ?case
  proof (cases "isDigit c")
    case False
    then show ?thesis by simp
  next
    case True
    with Cons.prems have rest: "\<not> list_all isDigit cs"
      and dec: "decimal (takeWhile isDigit cs) (n * 10 + digitVal c) < 2 ^ 64"
      by simp_all
    from decimal_ge[of "n * 10 + digitVal c" "takeWhile isDigit cs"] dec
    have lt: "n * 10 + digitVal c < 18446744073709551616"
      by (simp only: two_64)
    then have "n * 10 < 18446744073709551616" and "\<not> n \<ge> maxUint64 div 10 + 1"
      by (simp_all add: maxUint64_def)
    with lt True Cons.IH[OF rest dec] show ?thesis
      by (simp add: Let_def maxUint64_def)
  qed
qed

lemma Atoi_syntax:
  assumes nd: "\<not> decimal_integer s" and ln: "leading_number s < 2 ^ 64"
  shows "strconv_Atoi s = (0, Some ErrSyntax)"
proof (cases s)
  case Nil
  then show ?thesis by (simp add: strconv_Atoi_def ParseInt_def)
next
  case (Cons c cs)
  define s1 where "s1 = unsigned_part s"
  have s1: "s1 = (if c = CHR ''-'' \<or> c = CHR ''+'' then cs else s)"
    by (auto simp: s1_def unsigned_part_def Cons)
  from nd have bad: "s1 = [] \<or> \<not> list_all isDigit s1"
    by (auto simp: decimal_integer_def s1_def)
  show ?thesis
  proof (cases "s1 = []")
    case True
    with s1 Cons have "(c = CHR ''-'' \<or> c = CHR ''+'') \<and> cs = []" by (auto split: if_splits)
    then show ?thesis
      by (auto simp: strconv_Atoi_def Cons)
  next
    case False
    with bad have nall: "\<not> list_all isDigit s1" by simp
    from ln have "decimal (takeWhile isDigit s1) 0 < 2 ^ 64"
      by (simp add: leading_number_def s1_def)
    with nall have pu: "ParseUint_loop s1 0 = (0, Some ErrSyntax)"
      by (rule ParseUint_loop_syntax)
    from nall have al: "Atoi_loop s1 0 = None" by (simp add: Atoi_loop_None)
    have h: "(if hd s = CHR ''-'' \<or> hd s = CHR ''+'' then tl s else s) = s1"
      "(if hd s = CHR ''+'' \<or> hd s = CHR ''-'' then tl s else s) = s1"
      by (auto simp: s1 Cons)
    have sne: "s \<noteq> []" "0 < length s" by (simp_all add: Cons)
    show ?thesis
    proof (cases "length s < 19")
      case True
      with al False sne show ?thesis
        by (simp add: strconv_Atoi_def Let_def h)
    next
      case False
      with pu \<open>s1 \<noteq> []\<close> sne show ?thesis
        by (simp add: strconv_Atoi_def ParseInt_def ParseUint_def Let_def h)
    qed
  qed
qed

lemma decimal_lt:
  assumes "list_all isDigit cs"
  shows "decimal cs n < (n + 1) * 10 ^ length cs"
  using assms
proof (induction cs arbitrary: n)
  case Nil
  then show ?case by simp
next
  case (Cons c cs)
  then have c: "digitVal c < 10" and cs: "list_all isDigit cs"
    by (simp_all add: digitChar_digitVal)
  have "decimal cs (n * 10 + digitVal c) < (n * 10 + digitVal c + 1) * 10 ^ length cs"
    by (rule Cons.IH[OF cs])
  also have "\<dots> \<le> (n * 10 + 10) * 10 ^ length cs"
    using c by (intro mult_right_mono) simp_all
  also have "\<dots> = (n + 1) * 10 ^ length (c # cs)"
    by (simp add: algebra_simps)
  finally show ?case by simp
qed

lemma ParseUint_loop_range:
  assumes "n < 2 ^ 64" and "2 ^ 64 \<le> decimal (takeWhile isDigit cs) n"
  shows "ParseUint_loop cs n = (maxUint64, Some ErrRange)"
  using assms
proof (induction cs arbitrary: n)
  case Nil
  then show ?case by simp
next
  case (Cons c cs)
  show ?case
  proof (cases "isDigit c")
    case False
    with Cons.prems show ?thesis by simp
  next
    case True
    then have d: "digitVal c < 10" by (simp add: digitChar_digitVal)
    from True Cons.prems have dec: "2 ^ 64 \<le> decimal (takeWhile isDigit cs) (n * 10 + digitVal c)"
      by simp
    show ?thesis
    proof (cases "n \<ge> maxUint64 div 10 + 1")
      case True
      with \<open>isDigit c\<close> show ?thesis by simp
    next
      case False
      then have n10: "n * 10 < 18446744073709551616"
        by (simp add: maxUint64_def)
      show ?thesis
      proof (cases "n * 10 + digitVal c < 18446744073709551616")
        case True
        then have "n * 10 + digitVal c < 2 ^ 64" by (simp only: two_64)
        from Cons.IH[OF this dec] True n10 False \<open>isDigit c\<close> show ?thesis
          by (simp add: Let_def maxUint64_def)
      next
        case over: False
        then have "(n * 10 + digitVal c) mod 18446744073709551616 =
            n * 10 + digitVal c - 18446744073709551616"
          using n10 d by (simp add: mod_if)
        moreover have "n * 10 + digitVal c - 18446744073709551616 < n * 10"
          using over d by arith
        ultimately show ?thesis
          using n10 False \<open>isDigit c\<close> by (simp add: Let_def maxUint64_def)
      qed
    qed
  qed
qed

lemma Atoi_range:
  assumes "2 ^ 64 \<le> leading_number s"
  shows "strconv_Atoi s = (if hd s = CHR ''-'' then - (2 ^ 63) else 2 ^ 63 - 1, Some ErrRange)"
proof -
  define s1 where "s1 = unsigned_part s"
  from assms have ln: "18446744073709551616 \<le> decimal (takeWhile isDigit s1) 0"
    by (simp add: leading_number_def s1_def)
  then have s1ne: "s1 \<noteq> []" by auto
  then have sne: "s \<noteq> []" by (auto simp: s1_def unsigned_part_def)
  have h: "(if hd s = CHR ''+'' \<or> hd s = CHR ''-'' then tl s else s) = s1"
    using sne by (cases s) (auto simp: s1_def unsigned_part_def)
  have "length s1 \<le> length s"
    using sne by (cases s) (auto simp: s1_def unsigned_part_def)
  have long: "\<not> length s < 19"
  proof
    assume "length s < 19"
    with \<open>length s1 \<le> length s\<close> have "length (takeWhile isDigit s1) \<le> 18"
      using length_takeWhile_le[of isDigit s1] by simp
    then have "(10::nat) ^ length (takeWhile isDigit s1) \<le> 10 ^ 18"
      by (intro power_increasing) simp_all
    moreover have "list_all isDigit (takeWhile isDigit s1)"
      by (simp add: list_all_iff) (meson set_takeWhileD)
    from decimal_lt[OF this, of 0]
    have "decimal (takeWhile isDigit s1) 0 < 10 ^ length (takeWhile isDigit s1)" by simp
    ultimately show False using ln by simp
  qed
  have "ParseUint_loop s1 0 = (maxUint64, Some ErrRange)"
    using ln by (intro ParseUint_loop_range) simp_all
  with s1ne sne long show ?thesis
    by (simp add: strconv_Atoi_def ParseInt_def ParseUint_def Let_def h maxUint64_def)
qed

lemma Atoi_loop_decimal:
  assumes "list_all isDigit cs"
  shows "Atoi_loop cs (int n) = Some (int (decimal cs n))"
  using assms
proof (induction cs arbitrary: n)
  case Nil
  then show ?case by simp
next
  case (Cons c cs)
  from Cons.prems have c: "isDigit c" and cs: "list_all isDigit cs"
    by simp_all
  from Cons.IH[OF cs, of "n * 10 + digitVal c"] c show ?case
    by simp
qed

lemma ParseUint_loop_decimal:
  assumes "list_all isDigit cs" and "decimal cs n < 2 ^ 64"
  shows "ParseUint_loop cs n = (decimal cs n, None)"
  using assms
proof (induction cs arbitrary: n)
  case Nil
  then show ?case by simp
next
  case (Cons c cs)
  then have c: "isDigit c" and cs: "list_all isDigit cs"
    and dec: "decimal cs (n * 10 + digitVal c) < 2 ^ 64"
    by simp_all
  from decimal_ge[of "n * 10 + digitVal c" cs] dec
  have lt: "n * 10 + digitVal c < 18446744073709551616"
    by (simp only: two_64)
  then have "n * 10 < 18446744073709551616" and "\<not> n \<ge> maxUint64 div 10 + 1"
    by (simp_all add: maxUint64_def)
  with lt c Cons.IH[OF cs dec] show ?case
    by (simp add: Let_def maxUint64_def)
qed

lemma Atoi_decimal:
  assumes di: "decimal_integer s" and ln: "leading_number s < 2 ^ 64"
  shows "strconv_Atoi s =
     (if hd s \<noteq> CHR ''-'' \<and> 2 ^ 63 \<le> leading_number s then (2 ^ 63 - 1, Some ErrRange)
      else if hd s = CHR ''-'' \<and> 2 ^ 63 < leading_number s then (- (2 ^ 63), Some ErrRange)
      else (integer_value s, None))"
proof -
  define s1 where "s1 = unsigned_part s"
  from di have s1ne: "s1 \<noteq> []" and all: "list_all isDigit s1"
    by (simp_all add: decimal_integer_def s1_def)
  then have sne: "s \<noteq> []" "0 < length s" by (auto simp: s1_def unsigned_part_def)
  have h: "(if hd s = CHR ''+'' \<or> hd s = CHR ''-'' then tl s else s) = s1"
    "(if hd s = CHR ''-'' \<or> hd s = CHR ''+'' then tl s else s) = s1"
    using sne by (cases s; auto simp: s1_def unsigned_part_def)+
  have le: "length s1 \<le> length s"
    using sne by (cases s) (auto simp: s1_def unsigned_part_def)
  from all have tw: "takeWhile isDigit s1 = s1"
    by (simp add: list_all_iff)
  have v: "leading_number s = decimal s1 0"
    unfolding leading_number_def s1_def[symmetric] tw by (rule refl)
  show ?thesis
  proof (cases "length s < 19")
    case True
    with le have "length s1 \<le> 18" by simp
    then have "(10::nat) ^ length s1 \<le> 10 ^ 18"
      by (intro power_increasing) simp_all
    with decimal_lt[OF all, of 0] have small: "decimal s1 0 < 9223372036854775808" by simp
    from Atoi_loop_decimal[OF all, of 0] have "Atoi_loop s1 0 = Some (int (decimal s1 0))"
      by simp
    with True sne s1ne small show ?thesis
      by (simp add: strconv_Atoi_def Let_def h v integer_value_def)
  next
    case False
    from ln have "decimal s1 0 < 2 ^ 64" by (simp only: v)
    from ParseUint_loop_decimal[OF all this]
    have "ParseUint_loop s1 0 = (decimal s1 0, None)" .
    with False sne s1ne show ?thesis
      by (auto simp: strconv_Atoi_def ParseInt_def ParseUint_def Let_def h v integer_value_def)
  qed
qed

lemma Atoi_cases:
  "strconv_Atoi s =
     (if valid_integer s then (integer_value s, None)
      else if \<not> decimal_integer s \<and> leading_number s < 2 ^ 64 then (0, Some ErrSyntax)
      else (if hd s = CHR ''-'' then - (2 ^ 63) else 2 ^ 63 - 1, Some ErrRange))"
proof (cases "leading_number s < 2 ^ 64")
  case False
  then have "2 ^ 64 \<le> leading_number s" by simp
  from Atoi_range[OF this] False show ?thesis
    by (auto simp: valid_integer_def)
next
  case True
  show ?thesis
  proof (cases "decimal_integer s")
    case False
    with Atoi_syntax[OF False True] True show ?thesis
      by (simp add: valid_integer_def)
  next
    case di: True
    from Atoi_decimal[OF di True] di True show ?thesis
      by (auto simp: valid_integer_def)
  qed
qed

section \<open>Lines of a tag listing, and the indices of both parsers\<close>

lemma bytes_Index_char_None: "c \<notin> set s \<Longrightarrow> bytes_Index s [c] = None"
  by (induction s) auto

lemma bytes_Index_char_Some: "c \<in> set s \<Longrightarrow> bytes_Index s [c] \<noteq> None"
  by (induction s) auto

lemma bytes_Index_char_end: "c \<notin> set s \<Longrightarrow> bytes_Index (s @ [c]) [c] = Some (length s)"
  by (induction s) auto

lemma strings_Split_two:
  assumes "c \<notin> set d" "c \<notin> set n"
  shows "strings_Split (d @ [c] @ n) [c] = [d, n]"
proof -
  have "strings_Split (d @ [c] @ n) [c] = d # strings_Split n [c]"
    using assms(1) by (intro strings_Split_field) (simp_all add: bytes_Index_char_end)
  moreover have "strings_Split n [c] = [n]"
    using assms(2) by (intro strings_Split_last) (simp_all add: bytes_Index_char_None)
  ultimately show ?thesis by simp
qed

lemma strings_Split_one:
  assumes "c \<notin> set s"
  shows "strings_Split s [c] = [s]"
  using assms by (intro strings_Split_last) (simp_all add: bytes_Index_char_None)

lemma strings_Split_more:
  assumes "c \<in> set s"
  shows "2 \<le> length (strings_Split s [c])"
proof -
  from assms obtain i where "bytes_Index s [c] = Some i"
    using bytes_Index_char_Some by fastforce
  then have "strings_Split s [c] = take i s # strings_Split (drop (i + 1) s) [c]"
    by (subst strings_Split.simps) simp
  moreover have "1 \<le> length (strings_Split (drop (i + 1) s) [c])"
    by (simp add: strings_Split_length)
  ultimately show ?thesis by simp
qed

lemma parseTagsLoop_line:
  assumes "strings_TrimSpace token = d @ ''#'' @ n"
    and "CHR ''#'' \<notin> set d" "CHR ''#'' \<notin> set n"
  shows "parseTagsLoop p z (token # tokens) fin acc =
         parseTagsLoop p z tokens fin
           (acc @ [\<lparr>Name = n, TagDate = (case p d of Some t \<Rightarrow> t | None \<Rightarrow> z)\<rparr>])"
proof -
  have sp: "strings_Split (d @ ''#'' @ n) ''#'' = [d, n]"
    using strings_Split_two[OF assms(2,3)] by simp
  have ne: "d @ ''#'' @ n \<noteq> []" by simp
  show ?thesis
    unfolding parseTagsLoop.simps assms(1) Let_def sp
    using ne by (simp add: at_def time_Parse_def split: option.split)
qed

lemma parseTagsLoop_append:
  assumes "\<forall>(l, d, n)\<in>set rows. strings_TrimSpace (dropCR l) = d @ ''#'' @ n \<and>
      CHR ''#'' \<notin> set d \<and> CHR ''#'' \<notin> set n"
  shows "parseTagsLoop p z (map (\<lambda>(l, d, n). dropCR l) rows) ScanStopped acc =
         Ok (acc @ map (\<lambda>(l, d, n). \<lparr>Name = n, TagDate = (case p d of Some t \<Rightarrow> t | None \<Rightarrow> z)\<rparr>) rows)"
  using assms
proof (induction rows arbitrary: acc)
  case Nil
  then show ?case by simp
next
  case (Cons row rows)
  obtain l d n where row: "row = (l, d, n)" by (cases row)
  with Cons.prems have t: "strings_TrimSpace (dropCR l) = d @ ''#'' @ n"
    and h: "CHR ''#'' \<notin> set d" "CHR ''#'' \<notin> set n"
    by simp_all
  from Cons.prems have "\<forall>(l, d, n)\<in>set rows. strings_TrimSpace (dropCR l) = d @ ''#'' @ n \<and>
      CHR ''#'' \<notin> set d \<and> CHR ''#'' \<notin> set n"
    by simp
  from Cons.IH[OF this, of "acc @ [\<lparr>Name = n, TagDate = (case p d of Some t \<Rightarrow> t | None \<Rightarrow> z)\<rparr>]"]
  show ?case
    by (simp add: row parseTagsLoop_line[OF t h] del: parseTagsLoop.simps)
qed

lemma delimited_lines:
  assumes "\<forall>l\<in>set ls. CHR 0x0A \<notin> set l \<and> length l < MaxScanTokenSize"
  shows "delimited [CHR 0x0A] (concat (map (\<lambda>l. l @ [CHR 0x0A]) ls)) = ls"
proof -
  have "\<forall>r\<in>set ls. bytes_Index (r @ [CHR 0x0A]) [CHR 0x0A] = Some (length r) \<and>
      length r + length [CHR 0x0A] \<le> MaxScanTokenSize"
    using assms by (auto simp: bytes_Index_char_end)
  from delimited_join[OF _ this, of "[]"] show ?thesis
    by (simp add: join_records_def delimited_Nil)
qed

lemma parseTagsOutput_delimited:
  "parseTagsOutput p z input =
     Some (parseTagsLoop p z (map dropCR (delimited [CHR 0x0A] input)) ScanStopped [])"
  by (simp add: parseTagsOutput_def Scanner_tokens_ScanLines)

lemma parseTagsLoop_blank:
  assumes "strings_TrimSpace token = []"
  shows "parseTagsLoop p z (token # tokens) fin acc = parseTagsLoop p z tokens fin acc"
  using assms by simp

lemma parseTagsLoop_no_hash:
  assumes "strings_TrimSpace token \<noteq> []" and "CHR ''#'' \<notin> set (strings_TrimSpace token)"
  shows "parseTagsLoop p z (token # tokens) fin acc = Panic (IndexOutOfRange 1 1)"
  using assms strings_Split_one[OF assms(2)]
  by (simp add: at_def time_Parse_def Let_def split: option.split)

lemma parseTagsLoop_hash:
  assumes "CHR ''#'' \<in> set (strings_TrimSpace token)"
  shows "\<exists>e. parseTagsLoop p z (token # tokens) fin acc = parseTagsLoop p z tokens fin (acc @ [e])"
proof -
  from assms have "strings_TrimSpace token \<noteq> []" by auto
  with strings_Split_more[OF assms] show ?thesis
    by (auto simp: at_def time_Parse_def Let_def split: option.split)
qed

lemma parseTagsLoop_panics:
  assumes "\<exists>l\<in>set tokens. strings_TrimSpace l \<noteq> [] \<and> CHR ''#'' \<notin> set (strings_TrimSpace l)"
  shows "parseTagsLoop p z tokens fin acc = Panic (IndexOutOfRange 1 1)"
  using assms
proof (induction tokens arbitrary: acc)
  case Nil
  then show ?case by simp
next
  case (Cons token tokens)
  consider (blank) "strings_TrimSpace token = []"
    | (bad) "strings_TrimSpace token \<noteq> []" "CHR ''#'' \<notin> set (strings_TrimSpace token)"
    | (good) "CHR ''#'' \<in> set (strings_TrimSpace token)"
    by blast
  then show ?case
  proof cases
    case blank
    with Cons.prems have "\<exists>l\<in>set tokens. strings_TrimSpace l \<noteq> [] \<and>
        CHR ''#'' \<notin> set (strings_TrimSpace l)" by auto
    from Cons.IH[OF this] parseTagsLoop_blank[OF blank] show ?thesis by metis
  next
    case bad
    then show ?thesis by (rule parseTagsLoop_no_hash)
  next
    case good
    with Cons.prems have "\<exists>l\<in>set tokens. strings_TrimSpace l \<noteq> [] \<and>
        CHR ''#'' \<notin> set (strings_TrimSpace l)" by auto
    from Cons.IH[OF this] parseTagsLoop_hash[OF good] show ?thesis by metis
  qed
qed

lemma parseTagsLoop_returns:
  assumes "\<forall>l\<in>set tokens. strings_TrimSpace l = [] \<or> CHR ''#'' \<in> set (strings_TrimSpace l)"
  shows "\<exists>tags. parseTagsLoop p z tokens ScanStopped acc = Ok tags"
  using assms
proof (induction tokens arbitrary: acc)
  case Nil
  then show ?case by simp
next
  case (Cons token tokens)
  then have rest: "\<forall>l\<in>set tokens. strings_TrimSpace l = [] \<or> CHR ''#'' \<in> set (strings_TrimSpace l)"
    by simp
  from Cons.prems have "strings_TrimSpace token = [] \<or> CHR ''#'' \<in> set (strings_TrimSpace token)"
    by simp
  then show ?case
  proof
    assume "strings_TrimSpace token = []"
    from Cons.IH[OF rest] parseTagsLoop_blank[OF this] show ?thesis by metis
  next
    assume "CHR ''#'' \<in> set (strings_TrimSpace token)"
    from Cons.IH[OF rest] parseTagsLoop_hash[OF this] show ?thesis by metis
  qed
qed

lemma parseCommitLog_panics:
  assumes "strings_Count (strings_Trim commit [CHR 0x22]) logSeparator < 5"
  shows "\<exists>i\<in>{1, 4, 5}. parseCommitLog mp commit =
           Panic (IndexOutOfRange i (strings_Count (strings_Trim commit [CHR 0x22]) logSeparator + 1))"
proof -
  have "length (strings_Split (strings_Trim commit [CHR 0x22]) logSeparator) =
      strings_Count (strings_Trim commit [CHR 0x22]) logSeparator + 1"
    by (simp add: strings_Split_length logSeparator_def)
  with assms show ?thesis
    by (simp add: parseCommitLog_content Let_def)
qed

lemma parseCommitLog_in_bounds:
  assumes "5 \<le> strings_Count (strings_Trim commit [CHR 0x22]) logSeparator"
  shows "parseCommitLog mp commit \<noteq> Panic x"
proof -
  have "length (strings_Split (strings_Trim commit [CHR 0x22]) logSeparator) =
      strings_Count (strings_Trim commit [CHR 0x22]) logSeparator + 1"
    by (simp add: strings_Split_length logSeparator_def)
  with assms show ?thesis
    by (simp add: parseCommitLog_content Let_def split: sum.split)
qed

section \<open>Detached HEAD\<close>

text \<open>
  C9. Whatever the \<open>symbolic-ref\<close> invocation returns, \<open>IsDetached\<close> returns \<open>(true, nil)\<close>
  exactly when the invocation failed with empty output; it returns \<open>false\<close> and an error
  whose message is the output when the invocation failed with output; and it returns
  \<open>(false, nil)\<close> when the invocation succeeded.
\<close>

theorem IsDetached_outcomes:
  assumes "cmd [''git'', ''symbolic-ref'', ''-q'', ''HEAD''] = (out, err)"
  shows "(IsDetached cmd = (True, None) \<longleftrightarrow> err \<noteq> None \<and> out = []) \<and>
         (err \<noteq> None \<and> out \<noteq> [] \<longrightarrow>
            (\<exists>e. IsDetached cmd = (False, Some e) \<and> Error e = out)) \<and>
         (err = None \<longrightarrow> IsDetached cmd = (False, None))"
  using assms by (auto simp: IsDetached_def)

theorem IsDetached_outcomes_witness:
  "IsDetached (\<lambda>args. ([], Some (ExternalError ''exit status 1''))) = (True, None) \<and>
   IsDetached (\<lambda>args. (''refs/heads/main'', None)) = (False, None)"
  using IsDetached_outcomes [of "\<lambda>args. ([], Some (ExternalError ''exit status 1''))" "[]"
      "Some (ExternalError ''exit status 1'')"]
    IsDetached_outcomes [of "\<lambda>args. (''refs/heads/main'', None)" "''refs/heads/main''" None]
  by simp

section \<open>The range arguments of \<open>Log\<close>\<close>

text \<open>
  C8. For a range of type \<open>tag\<close> or \<open>hash\<close>, \<open>Log\<close> appends to its three fixed arguments:
  the single argument \<open>end\<close> when \<open>start\<close> is empty and \<open>end\<close> is not; the single argument
  \<open>start..end\<close>, with \<open>HEAD\<close> for an empty \<open>end\<close>, when \<open>start\<close> is not empty; and nothing
  when both are empty.
\<close>

theorem Log_params_tag_hash:
  assumes "rangeType lr = TagRange \<or> rangeType lr = HashRange"
  shows "(range_start lr = [] \<and> range_end lr \<noteq> [] \<longrightarrow>
            Log_params lr = [''log'', ''--date=short'', Log_format, range_end lr]) \<and>
         (range_start lr \<noteq> [] \<longrightarrow>
            Log_params lr =
              [''log'', ''--date=short'', Log_format,
               range_start lr @ ''..'' @ (if range_end lr = [] then ''HEAD'' else range_end lr)]) \<and>
         (range_start lr = [] \<and> range_end lr = [] \<longrightarrow>
            Log_params lr = [''log'', ''--date=short'', Log_format])"
proof -
  from assms have "rangeType lr \<noteq> DateRange"
    by (auto simp: TagRange_def HashRange_def DateRange_def)
  then show ?thesis
    by (simp add: Log_params_def str_def)
qed

theorem Log_params_tag_hash_witness:
  "Log_params (NewLogRange TagRange [] ''v2.0.0'') =
     [''log'', ''--date=short'', Log_format, ''v2.0.0''] \<and>
   Log_params (NewLogRange TagRange ''v1.0.0'' []) =
     [''log'', ''--date=short'', Log_format, ''v1.0.0..HEAD''] \<and>
   Log_params (NewLogRange HashRange [] []) = [''log'', ''--date=short'', Log_format]"
  using Log_params_tag_hash [of "NewLogRange TagRange [] ''v2.0.0''"]
    Log_params_tag_hash [of "NewLogRange TagRange ''v1.0.0'' []"]
    Log_params_tag_hash [of "NewLogRange HashRange [] []"]
  by (simp add: NewLogRange_def)

section \<open>The commit log parser\<close>

text \<open>
  C4. The record of the specification's example is parsed into its date, timestamp,
  author and hash, and the message is what the message processor makes of the subject
  \<open>fix: bug\<close> and the body \<open>body text\<close> (its error, if it returns one, is the result).
\<close>

theorem parseCommitLog_example:
  "parseCommitLog mp ''2024-01-02###1704153600###Jane Doe###abc1234###fix: bug###body text'' =
     (case mp ''fix: bug'' ''body text'' of
        Inl err \<Rightarrow> Err err
      | Inr message \<Rightarrow>
          Ok \<lparr>Date = ''2024-01-02'', Timestamp = 1704153600, AuthorName = ''Jane Doe'',
              Hash = ''abc1234'', Message = message\<rparr>)"
  by (simp add: parseCommitLog_def go_string_defs go_number_defs Let_def split: sum.split)

theorem parseCommitLog_example_witness:
  "parseCommitLog (\<lambda>subject body. Inr (subject, body))
     ''2024-01-02###1704153600###Jane Doe###abc1234###fix: bug###body text'' =
   Ok \<lparr>Date = ''2024-01-02'', Timestamp = 1704153600, AuthorName = ''Jane Doe'',
       Hash = ''abc1234'', Message = (''fix: bug'', ''body text'')\<rparr>"
  using parseCommitLog_example [of "\<lambda>subject body. Inr (subject, body)"]
  by simp

text \<open>
  C7 (as amended). For a range of type \<open>date\<close> with \<open>start\<close> or \<open>end\<close> not empty, \<open>Log\<close>
  appends \<open>--since start --until u\<close>, where \<open>u\<close> is \<open>addDay end\<close>. If \<open>end\<close> is a valid
  calendar date written \<open>YYYY-MM-DD\<close>, \<open>u\<close> is the next day written in the same layout:
  a calendar date, the only one whose day number is one higher. Unless \<open>end\<close> is
  \<open>9999-12-31\<close>, \<open>u\<close> has ten characters and is read back as that date; the day after
  \<open>9999-12-31\<close> is written \<open>10000-01-01\<close>, with a year of five digits. Every other \<open>end\<close>,
  the empty one included, is passed unchanged. (With both \<open>start\<close> and \<open>end\<close> empty
  nothing is appended: see the counterexample.)
\<close>

theorem Log_params_date:
  assumes "rangeType lr = DateRange" and "range_start lr \<noteq> [] \<or> range_end lr \<noteq> []"
  shows "Log_params lr =
           [''log'', ''--date=short'', Log_format,
            ''--since'', range_start lr, ''--until'', addDay (range_end lr)] \<and>
         (\<forall>y m d. valid_date y m d \<and> range_end lr = time_Format_date (TimeDate y m d) \<longrightarrow>
            addDay (range_end lr) = time_Format_date (AddDate_day (TimeDate y m d)) \<and>
            calendar_date (AddDate_day (TimeDate y m d)) \<and>
            dayNumber (AddDate_day (TimeDate y m d)) = dayNumber (TimeDate y m d) + 1 \<and>
            (\<forall>t. calendar_date t \<and> dayNumber t = dayNumber (TimeDate y m d) + 1 \<longrightarrow>
               t = AddDate_day (TimeDate y m d)) \<and>
            (range_end lr \<noteq> ''9999-12-31'' \<longrightarrow>
               length (addDay (range_end lr)) = 10 \<and>
               time_Parse_date (addDay (range_end lr)) = Some (AddDate_day (TimeDate y m d)))) \<and>
         (range_end lr = ''9999-12-31'' \<longrightarrow> addDay (range_end lr) = ''10000-01-01'') \<and>
         ((\<forall>y m d. valid_date y m d \<longrightarrow> range_end lr \<noteq> time_Format_date (TimeDate y m d)) \<longrightarrow>
            addDay (range_end lr) = range_end lr)"
proof (intro conjI allI impI)
  show "Log_params lr =
           [''log'', ''--date=short'', Log_format,
            ''--since'', range_start lr, ''--until'', addDay (range_end lr)]"
    using assms by (auto simp: Log_params_def)
next
  fix y m d
  assume a: "valid_date y m d \<and> range_end lr = time_Format_date (TimeDate y m d)"
  then have r: "1 \<le> m" "m \<le> 12" "d \<le> daysIn m y"
    by (simp_all add: valid_date_def)
  from a show e: "addDay (range_end lr) = time_Format_date (AddDate_day (TimeDate y m d))"
    by (simp only: addDay_valid)
  show c: "calendar_date (AddDate_day (TimeDate y m d))"
    by (rule AddDate_day_calendar[OF r])
  show n: "dayNumber (AddDate_day (TimeDate y m d)) = dayNumber (TimeDate y m d) + 1"
    by (rule AddDate_day_next[OF r])
  {
    fix t
    assume "calendar_date t \<and> dayNumber t = dayNumber (TimeDate y m d) + 1"
    with c n show "t = AddDate_day (TimeDate y m d)"
      by (intro dayNumber_inj) simp_all
  }
  {
    assume "range_end lr \<noteq> ''9999-12-31''"
    with a have "(y, m, d) \<noteq> (9999, 12, 31)"
      using Format_9999 by auto
    from AddDate_day_valid[OF a[THEN conjunct1] this] obtain y' m' d' where
      t: "AddDate_day (TimeDate y m d) = TimeDate y' m' d'" and v: "valid_date y' m' d'"
      by blast
    from v show "length (addDay (range_end lr)) = 10"
      unfolding e t by (rule time_Format_date_length)
    from v show "time_Parse_date (addDay (range_end lr)) = Some (AddDate_day (TimeDate y m d))"
      unfolding e t by (rule time_Parse_Format)
  }
next
  assume "range_end lr = ''9999-12-31''"
  then show "addDay (range_end lr) = ''10000-01-01''"
    by (simp only: addDay_9999)
next
  assume "\<forall>y m d. valid_date y m d \<longrightarrow> range_end lr \<noteq> time_Format_date (TimeDate y m d)"
  then show "addDay (range_end lr) = range_end lr"
    by (intro addDay_other) blast
qed

theorem Log_params_date_witness:
  "valid_date 2024 5 1 \<and> valid_date 2024 2 28 \<and> valid_date 2023 12 31 \<and>
   time_Format_date (TimeDate 2024 5 1) = ''2024-05-01'' \<and>
   time_Format_date (TimeDate 2024 2 28) = ''2024-02-28'' \<and>
   time_Format_date (TimeDate 2023 12 31) = ''2023-12-31'' \<and>
   Log_params \<lparr>rangeType = DateRange, range_start = [], range_end = ''2024-05-01''\<rparr> =
     [''log'', ''--date=short'', Log_format, ''--since'', [], ''--until'', ''2024-05-02''] \<and>
   Log_params \<lparr>rangeType = DateRange, range_start = [], range_end = ''2024-02-28''\<rparr> =
     [''log'', ''--date=short'', Log_format, ''--since'', [], ''--until'', ''2024-02-29''] \<and>
   Log_params \<lparr>rangeType = DateRange, range_start = [], range_end = ''2023-12-31''\<rparr> =
     [''log'', ''--date=short'', Log_format, ''--since'', [], ''--until'', ''2024-01-01''] \<and>
   Log_params \<lparr>rangeType = DateRange, range_start = ''2024-01-01'', range_end = []\<rparr> =
     [''log'', ''--date=short'', Log_format, ''--since'', ''2024-01-01'', ''--until'', []]"
proof -
  let ?a = "\<lparr>rangeType = DateRange, range_start = [], range_end = ''2024-05-01''\<rparr>"
  let ?b = "\<lparr>rangeType = DateRange, range_start = ''2024-01-01'', range_end = []\<rparr>"
  let ?c = "\<lparr>rangeType = DateRange, range_start = [], range_end = ''2024-02-28''\<rparr>"
  let ?d = "\<lparr>rangeType = DateRange, range_start = [], range_end = ''2023-12-31''\<rparr>"
  have v: "valid_date 2024 5 1" "valid_date 2024 2 28" "valid_date 2023 12 31"
    by (simp_all add: valid_date_def daysIn_def isLeap_def)
  have f: "time_Format_date (TimeDate 2024 5 1) = ''2024-05-01''"
    "time_Format_date (TimeDate 2024 2 28) = ''2024-02-28''"
    "time_Format_date (TimeDate 2023 12 31) = ''2023-12-31''"
    by (simp_all add: go_time_defs)
  have n: "time_Format_date (AddDate_day (TimeDate 2024 5 1)) = ''2024-05-02''"
    "time_Format_date (AddDate_day (TimeDate 2024 2 28)) = ''2024-02-29''"
    "time_Format_date (AddDate_day (TimeDate 2023 12 31)) = ''2024-01-01''"
    by (simp_all add: go_time_defs)
  have a: "rangeType ?a = DateRange" "range_start ?a \<noteq> [] \<or> range_end ?a \<noteq> []"
    and b: "rangeType ?b = DateRange" "range_start ?b \<noteq> [] \<or> range_end ?b \<noteq> []"
    and c: "rangeType ?c = DateRange" "range_start ?c \<noteq> [] \<or> range_end ?c \<noteq> []"
    and d: "rangeType ?d = DateRange" "range_start ?d \<noteq> [] \<or> range_end ?d \<noteq> []"
    by simp_all
  note A = Log_params_date [OF a] and B = Log_params_date [OF b]
    and C = Log_params_date [OF c] and D = Log_params_date [OF d]
  have "addDay (range_end ?a) = ''2024-05-02''"
    using A [THEN conjunct2, THEN conjunct1, rule_format, of 2024 5 1, THEN conjunct1] v f n
    by simp
  with A [THEN conjunct1] have 1: "Log_params ?a =
      [''log'', ''--date=short'', Log_format, ''--since'', [], ''--until'', ''2024-05-02'']"
    by simp
  have "addDay [] = []"
    by (simp add: addDay_def)
  with B [THEN conjunct1] have 2: "Log_params ?b =
      [''log'', ''--date=short'', Log_format, ''--since'', ''2024-01-01'', ''--until'', []]"
    by simp
  have "addDay (range_end ?c) = ''2024-02-29''"
    using C [THEN conjunct2, THEN conjunct1, rule_format, of 2024 2 28, THEN conjunct1] v f n
    by simp
  with C [THEN conjunct1] have 3: "Log_params ?c =
      [''log'', ''--date=short'', Log_format, ''--since'', [], ''--until'', ''2024-02-29'']"
    by simp
  have "addDay (range_end ?d) = ''2024-01-01''"
    using D [THEN conjunct2, THEN conjunct1, rule_format, of 2023 12 31, THEN conjunct1] v f n
    by simp
  with D [THEN conjunct1] have 4: "Log_params ?d =
      [''log'', ''--date=short'', Log_format, ''--since'', [], ''--until'', ''2024-01-01'']"
    by simp
  from v f 1 2 3 4 show ?thesis by simp
qed

text \<open>
  The claim as stated speaks of every range of type \<open>date\<close>; for the range with both
  bounds empty \<open>Log\<close> emits neither \<open>--since\<close> nor \<open>--until\<close>.
\<close>

theorem Log_params_date_empty_range:
  "Log_params \<lparr>rangeType = DateRange, range_start = [], range_end = []\<rparr> =
     [''log'', ''--date=short'', Log_format]"
  by (simp add: Log_params_def)

text \<open>
  C3 (as amended). Take a record that reads, without the quotes around it,
  \<open>date###timestamp###author###hash###subject###rest\<close>. If \<open>rest\<close> holds no separator,
  it is the body handed to the message processor. If \<open>rest\<close> is \<open>body###others\<close>, only
  \<open>body\<close>, the text before the sixth separator, is handed over, and \<open>others\<close> is ignored:
  the record is split at every separator and the fields 0 to 5 are used.
\<close>

theorem parseCommitLog_body:
  assumes f: "field date" "field ts" "field author" "field hash" "field subject"
    and c: "strings_Trim commit [CHR 0x22] =
      date @ logSeparator @ ts @ logSeparator @ author @ logSeparator @ hash @ logSeparator @
      subject @ logSeparator @ rest"
  shows "(bytes_Index rest logSeparator = None \<longrightarrow>
            parseCommitLog mp commit =
              (case mp subject rest of
                 Inl err \<Rightarrow> Err err
               | Inr message \<Rightarrow>
                   Ok \<lparr>Date = date, Timestamp = fst (strconv_Atoi ts), AuthorName = author,
                       Hash = hash, Message = message\<rparr>)) \<and>
         (\<forall>body others. field body \<and> rest = body @ logSeparator @ others \<longrightarrow>
            parseCommitLog mp commit =
              (case mp subject body of
                 Inl err \<Rightarrow> Err err
               | Inr message \<Rightarrow>
                   Ok \<lparr>Date = date, Timestamp = fst (strconv_Atoi ts), AuthorName = author,
                       Hash = hash, Message = message\<rparr>))"
proof -
  have ne: "logSeparator \<noteq> []" by (simp add: logSeparator_def)
  show ?thesis
  proof (intro conjI allI impI)
    assume "bytes_Index rest logSeparator = None"
    then have "strings_Split rest logSeparator = [rest]"
      using ne by (simp add: strings_Split_last)
    then show "parseCommitLog mp commit =
        (case mp subject rest of
           Inl err \<Rightarrow> Err err
         | Inr message \<Rightarrow>
             Ok \<lparr>Date = date, Timestamp = fst (strconv_Atoi ts), AuthorName = author,
                 Hash = hash, Message = message\<rparr>)"
      by (rule parseCommitLog_fields[OF f c])
  next
    fix body others
    assume "field body \<and> rest = body @ logSeparator @ others"
    then have "strings_Split rest logSeparator = body # strings_Split others logSeparator"
      by (simp add: strings_Split_field[OF ne] field_def)
    then show "parseCommitLog mp commit =
        (case mp subject body of
           Inl err \<Rightarrow> Err err
         | Inr message \<Rightarrow>
             Ok \<lparr>Date = date, Timestamp = fst (strconv_Atoi ts), AuthorName = author,
                 Hash = hash, Message = message\<rparr>)"
      by (rule parseCommitLog_fields[OF f c])
  qed
qed

theorem parseCommitLog_body_witness:
  "field ''fix: bug'' \<and> field ''first part'' \<and>
   parseCommitLog (\<lambda>subject body. Inr (subject, body))
     ''2024-01-02###1704153600###Jane Doe###abc1234###fix: bug###first part###second part'' =
   Ok \<lparr>Date = ''2024-01-02'', Timestamp = 1704153600, AuthorName = ''Jane Doe'',
       Hash = ''abc1234'', Message = (''fix: bug'', ''first part'')\<rparr> \<and>
   parseCommitLog (\<lambda>subject body. Inr (subject, body))
     ''2024-01-02###1704153600###Jane Doe###abc1234###fix: bug###body text'' =
   Ok \<lparr>Date = ''2024-01-02'', Timestamp = 1704153600, AuthorName = ''Jane Doe'',
       Hash = ''abc1234'', Message = (''fix: bug'', ''body text'')\<rparr>"
proof -
  let ?mp = "\<lambda>subject body. Inr (subject, body) :: error + string \<times> string"
  have ts: "fst (strconv_Atoi ''1704153600'') = 1704153600"
    by (simp add: go_number_defs)
  have 1: "strings_Trim
      ''2024-01-02###1704153600###Jane Doe###abc1234###fix: bug###first part###second part''
      [CHR 0x22] =
    ''2024-01-02'' @ logSeparator @ ''1704153600'' @ logSeparator @ ''Jane Doe'' @ logSeparator @
    ''abc1234'' @ logSeparator @ ''fix: bug'' @ logSeparator @
    (''first part'' @ logSeparator @ ''second part'')"
    by (simp add: strings_Trim_def logSeparator_def)
  have 2: "strings_Trim
      ''2024-01-02###1704153600###Jane Doe###abc1234###fix: bug###body text'' [CHR 0x22] =
    ''2024-01-02'' @ logSeparator @ ''1704153600'' @ logSeparator @ ''Jane Doe'' @ logSeparator @
    ''abc1234'' @ logSeparator @ ''fix: bug'' @ logSeparator @ ''body text''"
    by (simp add: strings_Trim_def logSeparator_def)
  have 3: "bytes_Index ''body text'' logSeparator = None"
    by (simp add: logSeparator_def)
  note A = parseCommitLog_body [OF field_example(1-5) 1, of ?mp, THEN conjunct2, rule_format,
      of "''first part''" "''second part''"]
  note B = parseCommitLog_body [OF field_example(1-5) 2, of ?mp, THEN conjunct1, rule_format,
      OF 3]
  from A B field_example ts show ?thesis by simp
qed

text \<open>
  The claim as stated lets the body take all that follows the fifth separator: for the
  body \<open>first part###second part\<close> the message processor gets \<open>first part\<close>.
\<close>

theorem parseCommitLog_body_truncated:
  "parseCommitLog (\<lambda>subject body. Inr (subject, body))
     ''2024-01-02###1704153600###Jane Doe###abc1234###fix: bug###first part###second part'' =
   Ok \<lparr>Date = ''2024-01-02'', Timestamp = 1704153600, AuthorName = ''Jane Doe'',
       Hash = ''abc1234'', Message = (''fix: bug'', ''first part'')\<rparr>"
  by (simp add: parseCommitLog_def go_string_defs go_number_defs Let_def)

text \<open>
  C5 (as amended). For a record of six fields, \<open>parseCommitLog\<close> returns no error of its
  own, whatever the timestamp field is (its result is an error only if the message
  processor returns one). \<open>Atoi\<close> returns an error exactly when the field is not a valid
  integer, and the timestamp of the entry is then: 0 if the field is not a decimal
  integer and its leading digits, if it has any, denote a number below \<open>2 ^ 64\<close>; the
  largest \<open>int\<close>, or the smallest after a minus sign, if its leading digits denote
  \<open>2 ^ 64\<close> or more, or if it is a decimal integer that an \<open>int\<close> does not hold. (For a
  valid integer the timestamp is its value.)
\<close>

theorem parseCommitLog_bad_timestamp:
  assumes f: "field date" "field ts" "field author" "field hash" "field subject"
    and b: "bytes_Index body logSeparator = None"
    and c: "strings_Trim commit [CHR 0x22] =
      date @ logSeparator @ ts @ logSeparator @ author @ logSeparator @ hash @ logSeparator @
      subject @ logSeparator @ body"
  shows "(snd (strconv_Atoi ts) = None \<longleftrightarrow> valid_integer ts) \<and>
         parseCommitLog mp commit =
           (case mp subject body of
              Inl err \<Rightarrow> Err err
            | Inr message \<Rightarrow>
                Ok \<lparr>Date = date,
                    Timestamp =
                      (if valid_integer ts then integer_value ts
                       else if \<not> decimal_integer ts \<and> leading_number ts < 2 ^ 64 then 0
                       else if hd ts = CHR ''-'' then - (2 ^ 63)
                       else 2 ^ 63 - 1),
                    AuthorName = author, Hash = hash, Message = message\<rparr>)"
proof -
  have "logSeparator \<noteq> []" by (simp add: logSeparator_def)
  with b have "strings_Split body logSeparator = [body]"
    by (simp add: strings_Split_last)
  note p = parseCommitLog_fields[OF f c this, of mp]
  have v: "snd (strconv_Atoi ts) = None \<longleftrightarrow> valid_integer ts"
    by (simp add: Atoi_cases[of ts])
  have "fst (strconv_Atoi ts) =
      (if valid_integer ts then integer_value ts
       else if \<not> decimal_integer ts \<and> leading_number ts < 2 ^ 64 then 0
       else if hd ts = CHR ''-'' then - (2 ^ 63)
       else 2 ^ 63 - 1)"
    by (simp add: Atoi_cases[of ts])
  with p v show ?thesis
    by (simp only:)
qed

theorem parseCommitLog_bad_timestamp_witness:
  "\<not> valid_integer ''not a number'' \<and> \<not> valid_integer ''-99999999999999999999'' \<and>
   \<not> valid_integer ''9223372036854775808'' \<and>
   parseCommitLog (\<lambda>subject body. Inr (subject, body))
     ''2024-01-02###not a number###Jane Doe###abc1234###fix: bug###body text'' =
   Ok \<lparr>Date = ''2024-01-02'', Timestamp = 0, AuthorName = ''Jane Doe'',
       Hash = ''abc1234'', Message = (''fix: bug'', ''body text'')\<rparr> \<and>
   parseCommitLog (\<lambda>subject body. Inr (subject, body))
     ''2024-01-02###-99999999999999999999###Jane Doe###abc1234###fix: bug###body text'' =
   Ok \<lparr>Date = ''2024-01-02'', Timestamp = - 9223372036854775808, AuthorName = ''Jane Doe'',
       Hash = ''abc1234'', Message = (''fix: bug'', ''body text'')\<rparr> \<and>
   parseCommitLog (\<lambda>subject body. Inr (subject, body))
     ''2024-01-02###9223372036854775808###Jane Doe###abc1234###fix: bug###body text'' =
   Ok \<lparr>Date = ''2024-01-02'', Timestamp = 9223372036854775807, AuthorName = ''Jane Doe'',
       Hash = ''abc1234'', Message = (''fix: bug'', ''body text'')\<rparr>"
proof -
  let ?mp = "\<lambda>subject body. Inr (subject, body) :: error + string \<times> string"
  have t: "\<not> decimal_integer ''not a number''" "leading_number ''not a number'' < 2 ^ 64"
    by (simp_all add: decimal_integer_def leading_number_def unsigned_part_def isDigit_def)
  have u: "2 ^ 64 \<le> leading_number ''-99999999999999999999''"
    "hd ''-99999999999999999999'' = CHR ''-''"
    by (simp_all add: leading_number_def unsigned_part_def isDigit_def digitVal_def)
  have w: "decimal_integer ''9223372036854775808''"
    "leading_number ''9223372036854775808'' = 2 ^ 63"
    "hd ''9223372036854775808'' \<noteq> CHR ''-''"
    by (simp_all add: decimal_integer_def leading_number_def unsigned_part_def isDigit_def
        digitVal_def)
  have fu: "field ''-99999999999999999999''" "field ''9223372036854775808''"
    by (simp_all add: field_def logSeparator_def)
  have b: "bytes_Index ''body text'' logSeparator = None"
    by (simp add: logSeparator_def)
  have c: "strings_Trim
      ''2024-01-02###not a number###Jane Doe###abc1234###fix: bug###body text'' [CHR 0x22] =
    ''2024-01-02'' @ logSeparator @ ''not a number'' @ logSeparator @ ''Jane Doe'' @
    logSeparator @ ''abc1234'' @ logSeparator @ ''fix: bug'' @ logSeparator @ ''body text''"
    by (simp add: strings_Trim_def logSeparator_def)
  have d: "strings_Trim
      ''2024-01-02###-99999999999999999999###Jane Doe###abc1234###fix: bug###body text''
      [CHR 0x22] =
    ''2024-01-02'' @ logSeparator @ ''-99999999999999999999'' @ logSeparator @ ''Jane Doe'' @
    logSeparator @ ''abc1234'' @ logSeparator @ ''fix: bug'' @ logSeparator @ ''body text''"
    by (simp add: strings_Trim_def logSeparator_def)
  have e: "strings_Trim
      ''2024-01-02###9223372036854775808###Jane Doe###abc1234###fix: bug###body text''
      [CHR 0x22] =
    ''2024-01-02'' @ logSeparator @ ''9223372036854775808'' @ logSeparator @ ''Jane Doe'' @
    logSeparator @ ''abc1234'' @ logSeparator @ ''fix: bug'' @ logSeparator @ ''body text''"
    by (simp add: strings_Trim_def logSeparator_def)
  have v: "\<not> valid_integer ''not a number''" "\<not> valid_integer ''-99999999999999999999''"
    "\<not> valid_integer ''9223372036854775808''"
    using t u w by (simp_all add: valid_integer_def)
  note A = parseCommitLog_bad_timestamp [OF field_example(1) field_example(7) field_example(3-5)
      b c, of ?mp, THEN conjunct2]
  note B = parseCommitLog_bad_timestamp [OF field_example(1) fu(1) field_example(3-5)
      b d, of ?mp, THEN conjunct2]
  note C = parseCommitLog_bad_timestamp [OF field_example(1) fu(2) field_example(3-5)
      b e, of ?mp, THEN conjunct2]
  from A v(1) t have 1: "parseCommitLog ?mp
      ''2024-01-02###not a number###Jane Doe###abc1234###fix: bug###body text'' =
    Ok \<lparr>Date = ''2024-01-02'', Timestamp = 0, AuthorName = ''Jane Doe'',
       Hash = ''abc1234'', Message = (''fix: bug'', ''body text'')\<rparr>"
    by simp
  from B v(2) u have 2: "parseCommitLog ?mp
      ''2024-01-02###-99999999999999999999###Jane Doe###abc1234###fix: bug###body text'' =
    Ok \<lparr>Date = ''2024-01-02'', Timestamp = - 9223372036854775808, AuthorName = ''Jane Doe'',
       Hash = ''abc1234'', Message = (''fix: bug'', ''body text'')\<rparr>"
    by simp
  from C v(3) w have 3: "parseCommitLog ?mp
      ''2024-01-02###9223372036854775808###Jane Doe###abc1234###fix: bug###body text'' =
    Ok \<lparr>Date = ''2024-01-02'', Timestamp = 9223372036854775807, AuthorName = ''Jane Doe'',
       Hash = ''abc1234'', Message = (''fix: bug'', ''body text'')\<rparr>"
    by simp
  from v 1 2 3 show ?thesis by simp
qed

text \<open>
  The claim as stated has the timestamp 0 for every field that is not a valid integer.
  Where twenty digits or more come first, \<open>Atoi\<close> fails with a range error at the digit
  that overflows, whatever follows, and returns the largest \<open>int\<close>: the error is dropped
  and that value is the timestamp.
\<close>

theorem parseCommitLog_timestamp_saturated:
  "parseCommitLog (\<lambda>subject body. Inr (subject, body))
     ''2024-01-02###99999999999999999999x###Jane Doe###abc1234###fix: bug###body text'' =
   Ok \<lparr>Date = ''2024-01-02'', Timestamp = 9223372036854775807, AuthorName = ''Jane Doe'',
       Hash = ''abc1234'', Message = (''fix: bug'', ''body text'')\<rparr> \<and>
   parseCommitLog (\<lambda>subject body. Inr (subject, body))
     ''2024-01-02###99999999999999999999###Jane Doe###abc1234###fix: bug###body text'' =
   Ok \<lparr>Date = ''2024-01-02'', Timestamp = 9223372036854775807, AuthorName = ''Jane Doe'',
       Hash = ''abc1234'', Message = (''fix: bug'', ''body text'')\<rparr>"
  by (simp add: parseCommitLog_def go_string_defs go_number_defs Let_def)

section \<open>The record splitter\<close>

text \<open>
  C2 (as amended). For every input and every non-empty marker, the scanner with
  \<open>splitAt\<close> yields the records that end at a marker, followed by at most one more
  record: the rest of the input after the last marker, if it is not empty. (The scanner
  stops at the first record that, with its marker, does not fit the buffer of
  \<open>MaxScanTokenSize\<close> bytes, and yields no rest of that size or more: \<open>terminated\<close> is
  the records before that.) The records that end at a marker, joined again with the
  marker after each, are split into the same records. (The rest is not dropped by the
  splitter, and with it the round trip can fail: see the counterexample.)
\<close>

theorem splitter_round_trip:
  assumes "b \<noteq> []"
  shows "\<exists>rem.
           Scanner_tokens (splitAt b) input = Some (terminated b input @ rem, ScanStopped) \<and>
           (rem = [] \<or>
            (\<exists>t. rem = [t] \<and> t \<noteq> [] \<and> bytes_Index t b = None \<and>
                 input = join_records b (terminated b input) @ t)) \<and>
           Scanner_tokens (splitAt b) (join_records b (terminated b input)) =
             Some (terminated b input, ScanStopped)"
proof -
  from delimited_terminated[of b input] obtain rem where
    rem: "delimited b input = terminated b input @ rem"
      "rem = [] \<or> (\<exists>t. rem = [t] \<and> t \<noteq> [] \<and> bytes_Index t b = None \<and>
         input = join_records b (terminated b input) @ t)"
    by blast
  have "\<forall>r\<in>set (terminated b input).
      bytes_Index (r @ b) b = Some (length r) \<and> length r + length b \<le> MaxScanTokenSize"
    using terminated_clean by blast
  from delimited_join[OF assms this, of "[]"]
  have "delimited b (join_records b (terminated b input)) = terminated b input"
    by (simp add: delimited_Nil[OF assms])
  with rem show ?thesis
    by (intro exI[of _ rem]) (simp add: Scanner_tokens_splitAt[OF assms])
qed

theorem splitter_round_trip_witness:
  "endLine \<noteq> [] \<and>
   terminated endLine ''a~~~b~~~c'' = [''a'', ''b''] \<and>
   Scanner_tokens (splitAt endLine) ''a~~~b~~~c'' = Some ([''a'', ''b'', ''c''], ScanStopped) \<and>
   Scanner_tokens (splitAt endLine) (join_records endLine [''a'', ''b'']) =
     Some ([''a'', ''b''], ScanStopped)"
proof -
  have ne: "endLine \<noteq> []"
    by (simp add: endLine_def)
  have t: "terminated endLine ''a~~~b~~~c'' = [''a'', ''b'']"
    by (simp add: terminated.simps endLine_def MaxScanTokenSize_def)
  have s: "Scanner_tokens (splitAt endLine) ''a~~~b~~~c'' =
      Some ([''a'', ''b'', ''c''], ScanStopped)"
    by (simp add: Scanner_tokens_splitAt delimited.simps endLine_def MaxScanTokenSize_def)
  from splitter_round_trip [OF ne, of "''a~~~b~~~c''"]
  have "Scanner_tokens (splitAt endLine) (join_records endLine [''a'', ''b'']) =
      Some ([''a'', ''b''], ScanStopped)"
    unfolding t by blast
  with ne t s show ?thesis by simp
qed

text \<open>
  The claim as stated has the remainder dropped and every sequence of records survive
  the round trip. The input \<open>a~\<close> has no marker; the splitter yields it as a record,
  and joined with the marker it is split into two records.
\<close>

theorem splitter_round_trip_remainder:
  "Scanner_tokens (splitAt endLine) ''a~'' = Some ([''a~''], ScanStopped) \<and>
   Scanner_tokens (splitAt endLine) (join_records endLine [''a~'']) =
     Some ([''a'', ''~''], ScanStopped)"
  by (simp add: Scanner_tokens_splitAt delimited.simps join_records_def endLine_def
      MaxScanTokenSize_def)

text \<open>
  C1 (as amended). On an input without the marker, \<open>splitAt\<close> at the end of input
  returns no token if the input is empty and the whole input as a token otherwise. The
  scanner yields that one token (none for an input of \<open>MaxScanTokenSize\<close> bytes or more),
  and \<open>parseLogOutput\<close> drops it only if nothing is left of it without double quotes and
  white space around it: otherwise it is parsed as a commit record.
\<close>

theorem splitter_no_marker:
  assumes "bytes_Index input endLine = None"
  shows "splitAt endLine input True =
           (if input = [] then (0, None, None) else (int (length input), Some input, None)) \<and>
         Scanner_tokens (splitAt endLine) input =
           Some (if input \<noteq> [] \<and> length input < MaxScanTokenSize then [input] else [],
                 ScanStopped) \<and>
         parseLogOutput mp input =
           Some (if input = [] \<or> MaxScanTokenSize \<le> length input \<or>
                    strings_TrimSpace (strings_Trim input [CHR 0x22]) = []
                 then Ok []
                 else case parseCommitLog mp (strings_TrimSpace (strings_Trim input [CHR 0x22])) of
                        Ok log \<Rightarrow> Ok [log]
                      | Err err \<Rightarrow> Err err
                      | Panic p \<Rightarrow> Panic p)"
proof -
  have d: "delimited endLine input =
      (if input \<noteq> [] \<and> length input < MaxScanTokenSize then [input] else [])"
    using assms by (subst delimited.simps) simp
  have "splitAt endLine input True =
      (if input = [] then (0, None, None) else (int (length input), Some input, None))"
    using assms by (simp add: splitAt_def Let_def)
  moreover have "Scanner_tokens (splitAt endLine) input =
      Some (if input \<noteq> [] \<and> length input < MaxScanTokenSize then [input] else [], ScanStopped)"
    by (simp add: Scanner_tokens_splitAt endLine_def d[unfolded endLine_def])
  moreover have "parseLogOutput mp input =
      Some (if input = [] \<or> MaxScanTokenSize \<le> length input \<or>
               strings_TrimSpace (strings_Trim input [CHR 0x22]) = []
            then Ok []
            else case parseCommitLog mp (strings_TrimSpace (strings_Trim input [CHR 0x22])) of
                   Ok log \<Rightarrow> Ok [log]
                 | Err err \<Rightarrow> Err err
                 | Panic p \<Rightarrow> Panic p)"
    by (auto simp: parseLogOutput_delimited d Let_def split: result.split)
  ultimately show ?thesis by simp
qed

theorem splitter_no_marker_witness:
  "bytes_Index [CHR 0x22, CHR 0x0A] endLine = None \<and>
   Scanner_tokens (splitAt endLine) [CHR 0x22, CHR 0x0A] =
     Some ([[CHR 0x22, CHR 0x0A]], ScanStopped) \<and>
   parseLogOutput (\<lambda>subject body. Inr (subject, body)) [CHR 0x22, CHR 0x0A] = Some (Ok []) \<and>
   parseLogOutput (\<lambda>subject body. Inr (subject, body)) [] = Some (Ok [])"
proof -
  let ?mp = "\<lambda>subject body. Inr (subject, body) :: error + string \<times> string"
  have 1: "bytes_Index [CHR 0x22, CHR 0x0A] endLine = None"
    and 2: "bytes_Index [] endLine = None"
    by (simp_all add: endLine_def)
  have t: "strings_TrimSpace (strings_Trim [CHR 0x22, CHR 0x0A] [CHR 0x22]) = []"
    by (simp add: go_string_defs)
  from splitter_no_marker [OF 1, of ?mp] splitter_no_marker [OF 2, of ?mp] 1 t
  show ?thesis by (simp add: MaxScanTokenSize_def)
qed

text \<open>
  The claim as stated has the splitter yield no record for an input without marker. The
  input \<open>abc\<close> is yielded as a record, and the commit log parser, which finds a single
  field in it, panics at \<open>content[1]\<close>.
\<close>

theorem splitter_no_marker_tail_kept:
  "Scanner_tokens (splitAt endLine) ''abc'' = Some ([''abc''], ScanStopped) \<and>
   parseLogOutput (\<lambda>subject body. Inr (subject, body)) ''abc'' =
     Some (Panic (IndexOutOfRange 1 1))"
  by (simp add: parseLogOutput_def Scanner_tokens_splitAt delimited.simps endLine_def
      MaxScanTokenSize_def parseCommitLog_def go_string_defs Let_def)

section \<open>The tag parser\<close>

text \<open>
  C6 (as amended). For a tag listing whose lines each read \<open>d#n\<close> with no \<open>#\<close> in \<open>d\<close> or
  \<open>n\<close>, \<open>parseTagsOutput\<close> returns no error and one entry per line, in the order of the
  lines: its name is \<open>n\<close>, and its date is the zero time where \<open>d\<close> does not parse (and the
  parsed time where it does).
\<close>

theorem parseTagsOutput_lines:
  assumes "\<forall>(l, d, n)\<in>set rows. tag_line l d n"
  shows "parseTagsOutput p z (concat (map (\<lambda>(l, d, n). l @ [CHR 0x0A]) rows)) =
           Some (Ok (map (\<lambda>(l, d, n).
             \<lparr>Name = n, TagDate = (case p d of Some t \<Rightarrow> t | None \<Rightarrow> z)\<rparr>) rows))"
proof -
  let ?input = "concat (map (\<lambda>(l, d, n). l @ [CHR 0x0A]) rows)"
  have "\<forall>l\<in>set (map fst rows). CHR 0x0A \<notin> set l \<and> length l < MaxScanTokenSize"
    using assms by (auto simp: tag_line_def)
  from delimited_lines[OF this]
  have "delimited [CHR 0x0A] ?input = map fst rows"
    by (simp add: comp_def case_prod_unfold)
  then have toks: "map dropCR (delimited [CHR 0x0A] ?input) = map (\<lambda>(l, d, n). dropCR l) rows"
    by (simp add: comp_def case_prod_unfold)
  have "\<forall>(l, d, n)\<in>set rows. strings_TrimSpace (dropCR l) = d @ ''#'' @ n \<and>
      CHR ''#'' \<notin> set d \<and> CHR ''#'' \<notin> set n"
    using assms by (auto simp: tag_line_def)
  from parseTagsLoop_append[OF this, of p z "[]"] show ?thesis
    unfolding parseTagsOutput_delimited toks by simp
qed

theorem parseTagsOutput_lines_witness:
  "tag_line ''not a date#v1.2.3'' ''not a date'' ''v1.2.3'' \<and>
   tag_line ''2024-02-03 10:00:00 +0000#v1.3.0'' ''2024-02-03 10:00:00 +0000'' ''v1.3.0'' \<and>
   parseTagsOutput (\<lambda>d. if d = ''2024-02-03 10:00:00 +0000'' then Some (1706954400::int) else None) 0
     (''not a date#v1.2.3'' @ [CHR 0x0A] @ ''2024-02-03 10:00:00 +0000#v1.3.0'' @ [CHR 0x0A]) =
   Some (Ok [\<lparr>Name = ''v1.2.3'', TagDate = 0\<rparr>, \<lparr>Name = ''v1.3.0'', TagDate = 1706954400\<rparr>])"
proof -
  let ?p = "\<lambda>d. if d = ''2024-02-03 10:00:00 +0000'' then Some (1706954400::int) else None"
  have 1: "tag_line ''not a date#v1.2.3'' ''not a date'' ''v1.2.3''"
    and 2: "tag_line ''2024-02-03 10:00:00 +0000#v1.3.0'' ''2024-02-03 10:00:00 +0000'' ''v1.3.0''"
    by (simp_all add: tag_line_def dropCR_def go_string_defs MaxScanTokenSize_def)
  let ?rows = "[(''not a date#v1.2.3'', ''not a date'', ''v1.2.3''),
    (''2024-02-03 10:00:00 +0000#v1.3.0'', ''2024-02-03 10:00:00 +0000'', ''v1.3.0'')]"
  from 1 2 have "\<forall>(l, d, n)\<in>set ?rows. tag_line l d n" by simp
  from parseTagsOutput_lines [OF this, of ?p 0] 1 2 show ?thesis by simp
qed

text \<open>
  The claim as stated speaks of every line that is a date part, a \<open>#\<close> and a name. A name
  may hold a \<open>#\<close> (git allows it in a tag name): the line is split at every \<open>#\<close>, and the
  name of the entry is the part between the first and the second.
\<close>

theorem parseTagsOutput_name_cut:
  "parseTagsOutput (\<lambda>d. None) (0::int) (''not a date#release#1'' @ [CHR 0x0A]) =
   Some (Ok [\<lparr>Name = ''release'', TagDate = 0\<rparr>])"
  by (simp add: parseTagsOutput_delimited delimited.simps MaxScanTokenSize_def dropCR_def
      go_string_defs time_Parse_def Let_def)

section \<open>Index expressions\<close>

text \<open>
  C10. \<open>parseCommitLog\<close> panics with an index out of range (at index 1, 4 or 5, the
  first that does not exist) when the record, without the quotes around it, holds fewer
  than five separators, and every index is in bounds when it holds five or more.
  \<open>parseTagsOutput\<close> panics at index 1 when a line that is not empty after trimming
  holds no \<open>#\<close>, and returns its entries when every such line holds one.
\<close>

theorem index_accesses:
  "(strings_Count (strings_Trim commit [CHR 0x22]) logSeparator < 5 \<longrightarrow>
      (\<exists>i\<in>{1, 4, 5}. parseCommitLog mp commit =
         Panic (IndexOutOfRange i
           (strings_Count (strings_Trim commit [CHR 0x22]) logSeparator + 1)))) \<and>
   (5 \<le> strings_Count (strings_Trim commit [CHR 0x22]) logSeparator \<longrightarrow>
      (\<forall>x. parseCommitLog mp commit \<noteq> Panic x)) \<and>
   (\<exists>lines.
      Scanner_tokens ScanLines input = Some (lines, ScanStopped) \<and>
      ((\<exists>l\<in>set lines. strings_TrimSpace l \<noteq> [] \<and> CHR ''#'' \<notin> set (strings_TrimSpace l)) \<longrightarrow>
         parseTagsOutput p z input = Some (Panic (IndexOutOfRange 1 1))) \<and>
      ((\<forall>l\<in>set lines. strings_TrimSpace l = [] \<or> CHR ''#'' \<in> set (strings_TrimSpace l)) \<longrightarrow>
         (\<exists>tags. parseTagsOutput p z input = Some (Ok tags))))"
proof (intro conjI impI allI)
  assume "strings_Count (strings_Trim commit [CHR 0x22]) logSeparator < 5"
  then show "\<exists>i\<in>{1, 4, 5}. parseCommitLog mp commit =
      Panic (IndexOutOfRange i (strings_Count (strings_Trim commit [CHR 0x22]) logSeparator + 1))"
    by (rule parseCommitLog_panics)
next
  fix x
  assume "5 \<le> strings_Count (strings_Trim commit [CHR 0x22]) logSeparator"
  then show "parseCommitLog mp commit \<noteq> Panic x"
    by (rule parseCommitLog_in_bounds)
next
  let ?lines = "map dropCR (delimited [CHR 0x0A] input)"
  have "Scanner_tokens ScanLines input = Some (?lines, ScanStopped)"
    by (rule Scanner_tokens_ScanLines)
  moreover have "(\<exists>l\<in>set ?lines. strings_TrimSpace l \<noteq> [] \<and>
      CHR ''#'' \<notin> set (strings_TrimSpace l)) \<longrightarrow>
    parseTagsOutput p z input = Some (Panic (IndexOutOfRange 1 1))"
    using parseTagsLoop_panics[of ?lines p z ScanStopped "[]"]
    by (simp add: parseTagsOutput_delimited)
  moreover have "(\<forall>l\<in>set ?lines. strings_TrimSpace l = [] \<or>
      CHR ''#'' \<in> set (strings_TrimSpace l)) \<longrightarrow>
    (\<exists>tags. parseTagsOutput p z input = Some (Ok tags))"
    using parseTagsLoop_returns[of ?lines p z "[]"]
    by (simp add: parseTagsOutput_delimited)
  ultimately show "\<exists>lines.
      Scanner_tokens ScanLines input = Some (lines, ScanStopped) \<and>
      ((\<exists>l\<in>set lines. strings_TrimSpace l \<noteq> [] \<and> CHR ''#'' \<notin> set (strings_TrimSpace l)) \<longrightarrow>
         parseTagsOutput p z input = Some (Panic (IndexOutOfRange 1 1))) \<and>
      ((\<forall>l\<in>set lines. strings_TrimSpace l = [] \<or> CHR ''#'' \<in> set (strings_TrimSpace l)) \<longrightarrow>
         (\<exists>tags. parseTagsOutput p z input = Some (Ok tags)))"
    by blast
qed

theorem index_accesses_witness:
  "strings_Count (strings_Trim ''2024-01-02###1704153600'' [CHR 0x22]) logSeparator < 5 \<and>
   parseCommitLog (\<lambda>subject body. Inr (subject, body)) ''2024-01-02###1704153600'' =
     Panic (IndexOutOfRange 4 2) \<and>
   5 \<le> strings_Count
     (strings_Trim ''2024-01-02###1704153600###Jane Doe###abc1234###fix: bug###body text''
        [CHR 0x22]) logSeparator \<and>
   parseCommitLog (\<lambda>subject body. Inr (subject, body))
     ''2024-01-02###1704153600###Jane Doe###abc1234###fix: bug###body text'' \<noteq>
     Panic (IndexOutOfRange 5 5) \<and>
   parseTagsOutput (\<lambda>d. None) (0::int) (''v1.2.3'' @ [CHR 0x0A]) =
     Some (Panic (IndexOutOfRange 1 1)) \<and>
   parseTagsOutput (\<lambda>d. None) (0::int) (''not a date#v1.2.3'' @ [CHR 0x0A]) =
     Some (Ok [\<lparr>Name = ''v1.2.3'', TagDate = 0\<rparr>])"
proof -
  let ?mp = "\<lambda>subject body. Inr (subject, body) :: error + string \<times> string"
  let ?p = "\<lambda>d. None :: int option"
  have c1: "strings_Count (strings_Trim ''2024-01-02###1704153600'' [CHR 0x22]) logSeparator = 1"
    by (simp add: strings_Count.simps strings_Trim_def logSeparator_def)
  have c2: "strings_Count
      (strings_Trim ''2024-01-02###1704153600###Jane Doe###abc1234###fix: bug###body text''
         [CHR 0x22]) logSeparator = 5"
    by (simp add: strings_Count.simps strings_Trim_def logSeparator_def)
  note A = index_accesses [of "''2024-01-02###1704153600''" ?mp "''v1.2.3'' @ [CHR 0x0A]" ?p 0]
  note B = index_accesses
    [of "''2024-01-02###1704153600###Jane Doe###abc1234###fix: bug###body text''" ?mp
      "''not a date#v1.2.3'' @ [CHR 0x0A]" ?p 0]
  have p1: "parseCommitLog ?mp ''2024-01-02###1704153600'' = Panic (IndexOutOfRange 4 2)"
    by (simp add: parseCommitLog_def go_string_defs go_number_defs Let_def)
  from B c2 have p2: "parseCommitLog ?mp
      ''2024-01-02###1704153600###Jane Doe###abc1234###fix: bug###body text'' \<noteq>
      Panic (IndexOutOfRange 5 5)"
    by simp
  have l1: "Scanner_tokens ScanLines (''v1.2.3'' @ [CHR 0x0A]) = Some ([''v1.2.3''], ScanStopped)"
    by (simp add: Scanner_tokens_ScanLines delimited.simps MaxScanTokenSize_def dropCR_def)
  have t1: "strings_TrimSpace ''v1.2.3'' = ''v1.2.3''"
    by (simp add: go_string_defs)
  from A l1 t1 have p3: "parseTagsOutput ?p 0 (''v1.2.3'' @ [CHR 0x0A]) =
      Some (Panic (IndexOutOfRange 1 1))"
    by simp
  have p4: "parseTagsOutput ?p 0 (''not a date#v1.2.3'' @ [CHR 0x0A]) =
      Some (Ok [\<lparr>Name = ''v1.2.3'', TagDate = 0\<rparr>])"
    by (simp add: parseTagsOutput_delimited delimited.simps MaxScanTokenSize_def dropCR_def
        go_string_defs time_Parse_def Let_def)
  from c1 c2 p1 p2 p3 p4 show ?thesis by simp
qed

end
